theory Spec2Isabelle
  imports Main "HOL-Library.Word" "HOL-Library.Sublist"
begin

section \<open>coilLauncher: the controller of src/src/main.cpp\<close>

text \<open>
  The sketch runs on an Arduino nano (AVR): \<open>unsigned long\<close> is 32 bits wide and its
  subtraction wraps, \<open>uint8_t\<close> is 8 bits. Every value the sketch reads from the outside
  (the clock \<open>millis()\<close>, \<open>digitalRead\<close>, \<open>analogRead\<close>) is an input of the model, one
  field per place of the source that reads it. Everything the sketch does to the outside
  (\<open>digitalWrite\<close>, \<open>Serial.print\<close>, \<open>delay\<close>) is appended, in program order, to a trace
  kept in the state.
\<close>

subsection \<open>Constants of the sketch\<close>

type_synonym pin = "8 word"
type_synonym ulong = "32 word"

definition LAUNCH_SWITCH :: pin where "LAUNCH_SWITCH = 10"
definition HALL_SENSOR1 :: pin where "HALL_SENSOR1 = 2"
definition HALL_SENSOR2 :: pin where "HALL_SENSOR2 = 5"
definition TRIGGER0 :: pin where "TRIGGER0 = 3"
definition TRIGGER1 :: pin where "TRIGGER1 = 4"
definition LED_RED_PIN :: pin where "LED_RED_PIN = 6"
definition LED_BLUE_PIN :: pin where "LED_BLUE_PIN = 8"
definition LED_GREEN_PIN :: pin where "LED_GREEN_PIN = 7"

definition BLACK :: "8 word" where "BLACK = 0"
definition RED :: "8 word" where "RED = 1"
definition BLUE :: "8 word" where "BLUE = 2"
definition GREEN :: "8 word" where "GREEN = 3"

definition REARM_DELAY :: ulong where "REARM_DELAY = 5000"
definition FAIL_SAFE_LIMIT :: ulong where "FAIL_SAFE_LIMIT = 1000"

subsection \<open>checkSwitch: the debounced read\<close>

text \<open>
  \<open>rd k\<close> is the level (\<open>True\<close> for HIGH) that the \<open>k\<close>-th \<open>digitalRead\<close> of one call
  returns: \<open>rd 0\<close> is the read before the loop, \<open>rd k\<close> for \<open>k \<ge> 1\<close> the read after the
  \<open>k\<close>-th \<open>delay(1)\<close>. The \<open>for\<close> loop has no bound on its number of rounds, so it is a
  partial function: \<open>None\<close> is a call that never returns. Its arguments are the index of
  the next read and the three locals; on exit it gives the local \<open>state\<close> and the number
  of reads made. The C loop header's \<open>counter++\<close> runs after every round, also after
  \<open>counter=0\<close>.
\<close>

definition debounceDelay :: nat where "debounceDelay = 20"

partial_function (option) checkSwitch_loop ::
  "(nat \<Rightarrow> bool) \<Rightarrow> nat \<Rightarrow> nat \<Rightarrow> bool \<Rightarrow> bool \<Rightarrow> (bool \<times> nat) option" where
  "checkSwitch_loop rd i counter prevState state =
     (if counter < debounceDelay then
        (let state' = rd i in
         if state' \<noteq> prevState
         then checkSwitch_loop rd (Suc i) (Suc 0) state' state'
         else checkSwitch_loop rd (Suc i) (Suc counter) prevState state')
      else Some (state, i))"

text \<open>
  The local \<open>state\<close> is not initialised in the source; the first round assigns it before
  any use (\<open>counter = 0 < 20\<close>), so the value passed here is never returned.
\<close>

definition checkSwitch_reads :: "(nat \<Rightarrow> bool) \<Rightarrow> (bool \<times> nat) option" where
  "checkSwitch_reads rd = checkSwitch_loop rd (Suc 0) 0 (rd 0) False"

text \<open>The call itself: what the loop leaves in \<open>state\<close>, compared with HIGH.\<close>

definition checkSwitch :: "(nat \<Rightarrow> bool) \<Rightarrow> bool option" where
  "checkSwitch rd =
     (case checkSwitch_reads rd of
        None \<Rightarrow> None
      | Some (state, reads) \<Rightarrow> if state = True then Some True else Some False)"

text \<open>
  \<open>stable_from rd m\<close>: the twenty polls \<open>rd (m + 1), \<dots>, rd (m + 20)\<close> all show one
  level (none of them is the read before the loop, which is \<open>rd 0\<close>).
\<close>

definition stable_from :: "(nat \<Rightarrow> bool) \<Rightarrow> nat \<Rightarrow> bool" where
  "stable_from rd m \<longleftrightarrow> (\<forall>k<20. rd (Suc (m + k)) = rd (Suc m))"


text \<open>
  The loop invariant of \<open>checkSwitch_loop\<close>: with \<open>c\<close> the counter and \<open>j + c\<close> the index
  of the last read made, the last \<open>c\<close> reads (from \<open>rd (j + 1)\<close> on) show \<open>prevState\<close>, the
  read before them does not, and no window that starts before \<open>j\<close> is stable.
\<close>

definition run_inv :: "(nat \<Rightarrow> bool) \<Rightarrow> nat \<Rightarrow> nat \<Rightarrow> bool \<Rightarrow> bool \<Rightarrow> bool" where
  "run_inv rd j c p st \<longleftrightarrow>
     c \<le> 20 \<and> (\<forall>k<c. rd (Suc (j + k)) = p) \<and> (0 < c \<longrightarrow> st = p) \<and>
     (0 < j \<longrightarrow> 0 < c \<and> rd j \<noteq> p) \<and> (\<forall>m<j. \<not> stable_from rd m)"

text \<open>
  \<open>first_stable rd (b, n)\<close>: \<open>n\<close> reads end exactly with the first stable window, and \<open>b\<close>
  is the level of that window.
\<close>

definition first_stable :: "(nat \<Rightarrow> bool) \<Rightarrow> bool \<times> nat \<Rightarrow> bool" where
  "first_stable rd y \<longleftrightarrow>
     (\<exists>m. y = (rd (m + 20), m + 21) \<and> stable_from rd m \<and> (\<forall>m'<m. \<not> stable_from rd m'))"

subsection \<open>The globals and the effects\<close>

datatype pin_mode = INPUT_PULLUP | OUTPUT

datatype event =
    SerialBegin nat
  | PinMode pin pin_mode
  | DigitalWrite pin bool
  | SerialText string
  | SerialULong ulong
  | SerialInt int
  | SerialEOL
  | Delay ulong

text \<open>
  The globals of the sketch, and the trace of everything it has done to the outside so
  far, oldest first. \<open>boolean\<close> is \<open>bool\<close>; \<open>holdOffDelay\<close> is an \<open>int\<close>.
\<close>

record state =
  coil0TriggerTime :: ulong
  coil1TriggerTime :: ulong
  hall1TripTime :: ulong
  hall2TripTime :: ulong
  pulseWidth :: ulong
  holdOffDelay :: int
  readyToLaunch :: bool
  launched :: bool
  coil0Active :: bool
  coil1Active :: bool
  hall1Tripped :: bool
  hall2Tripped :: bool
  trace :: "event list"

definition emit :: "event \<Rightarrow> state \<Rightarrow> state" where
  "emit e s = s\<lparr>trace := trace s @ [e]\<rparr>"

definition digitalWrite :: "pin \<Rightarrow> bool \<Rightarrow> state \<Rightarrow> state" where
  "digitalWrite p v = emit (DigitalWrite p v)"

definition pinMode :: "pin \<Rightarrow> pin_mode \<Rightarrow> state \<Rightarrow> state" where
  "pinMode p m = emit (PinMode p m)"

definition delay :: "ulong \<Rightarrow> state \<Rightarrow> state" where
  "delay ms = emit (Delay ms)"

definition Serial_begin :: "nat \<Rightarrow> state \<Rightarrow> state" where
  "Serial_begin baud = emit (SerialBegin baud)"

definition Serial_print :: "string \<Rightarrow> state \<Rightarrow> state" where
  "Serial_print str = emit (SerialText str)"

definition Serial_print_ulong :: "ulong \<Rightarrow> state \<Rightarrow> state" where
  "Serial_print_ulong n = emit (SerialULong n)"

definition Serial_print_int :: "int \<Rightarrow> state \<Rightarrow> state" where
  "Serial_print_int n = emit (SerialInt n)"

definition Serial_println :: "string \<Rightarrow> state \<Rightarrow> state" where
  "Serial_println str s = emit SerialEOL (emit (SerialText str) s)"

text \<open>A block of statements, run in order.\<close>

definition exec :: "(state \<Rightarrow> state) list \<Rightarrow> state \<Rightarrow> state" where
  "exec stmts s = fold (\<lambda>stmt. stmt) stmts s"

text \<open>
  The level of an output line after a trace: that of the last \<open>digitalWrite\<close> to it, LOW
  (\<open>False\<close>) when there is none (the port registers are zero after reset).
\<close>

fun pin_after :: "pin \<Rightarrow> bool \<Rightarrow> event \<Rightarrow> bool" where
  "pin_after p level (DigitalWrite q v) = (if q = p then v else level)"
| "pin_after p level _ = level"

definition pin_level :: "pin \<Rightarrow> event list \<Rightarrow> bool" where
  "pin_level p evs = foldl (pin_after p) False evs"

text \<open>At no moment of the trace were both coil lines HIGH.\<close>

definition never_both :: "event list \<Rightarrow> bool" where
  "never_both evs \<longleftrightarrow>
     (\<forall>h \<in> set (prefixes evs). \<not> (pin_level TRIGGER0 h \<and> pin_level TRIGGER1 h))"

text \<open>
  The same for a piece of trace that follows a moment at which the two lines had the
  levels \<open>a\<close> and \<open>b\<close>: after none of its events are both lines HIGH.
\<close>

fun lines_ok :: "bool \<Rightarrow> bool \<Rightarrow> event list \<Rightarrow> bool" where
  "lines_ok a b [] = True"
| "lines_ok a b (e # es) =
     (\<not> (pin_after TRIGGER0 a e \<and> pin_after TRIGGER1 b e) \<and>
      lines_ok (pin_after TRIGGER0 a e) (pin_after TRIGGER1 b e) es)"

subsection \<open>The inputs of one run of loop()\<close>

text \<open>
  One field for each place of \<open>loop()\<close> that reads the outside, named after what is read
  and the block that reads it (source line in brackets). A read that the short-circuit
  evaluation of a condition skips is not looked at. A digital level is \<open>True\<close> for HIGH;
  the two \<open>switch_\<close> fields are the reads of the two calls of \<open>checkSwitch\<close>.
\<close>

record inputs =
  analog_holdoff :: int
  millis_failsafe :: ulong
  hall1_trip :: bool
  millis_hall1 :: ulong
  hall2_trip :: bool
  millis_hall2 :: ulong
  millis_rearm :: ulong
  switch_rearm :: "nat \<Rightarrow> bool"
  hall1_fire :: bool
  hall2_fire :: bool
  switch_fire :: "nat \<Rightarrow> bool"
  millis_coil0 :: ulong
  hall1_coil1 :: bool
  millis_coil1 :: ulong
  millis_off0 :: ulong
  millis_off1 :: ulong

subsection \<open>turnLED\<close>

definition turnLED :: "8 word \<Rightarrow> state \<Rightarrow> state" where
  "turnLED color s =
     (let (red, green, blue) =
        (if color = RED then (False, True, True)
         else if color = GREEN then (True, False, True)
         else if color = BLUE then (True, True, False)
         else (True, True, True))
      in exec [digitalWrite LED_RED_PIN red, digitalWrite LED_GREEN_PIN green,
               digitalWrite LED_BLUE_PIN blue] s)"

subsection \<open>The hold-off scaling\<close>

text \<open>C division of \<open>long\<close>: the quotient is truncated towards zero.\<close>

definition c_div :: "int \<Rightarrow> int \<Rightarrow> int" where
  "c_div a b = sgn a * sgn b * (\<bar>a\<bar> div \<bar>b\<bar>)"

text \<open>
  Modelled from the spec: \<open>map\<close> is the Arduino core's function, not a part of
  src/. The spec has the analog input "scaled linearly from its native range to a bounded
  time-duration range"; in \<open>long\<close> arithmetic that is
  \<open>(x - in_min) * (out_max - out_min) / (in_max - in_min) + out_min\<close>. For an \<open>int\<close>
  (16 bits) \<open>x\<close> and the bounds of line 90 no intermediate value leaves 32 bits.
\<close>

definition map_long :: "int \<Rightarrow> int \<Rightarrow> int \<Rightarrow> int \<Rightarrow> int \<Rightarrow> int" where
  "map_long x in_min in_max out_min out_max =
     c_div ((x - in_min) * (out_max - out_min)) (in_max - in_min) + out_min"

definition readHoldOff :: "inputs \<Rightarrow> state \<Rightarrow> state" where
  "readHoldOff inp s = s\<lparr>holdOffDelay := map_long (analog_holdoff inp) 0 1023 0 102\<rparr>"

subsection \<open>The blocks of loop(), in source order\<close>

text \<open>Lines 94 to 101: the fail-safe.\<close>

definition failSafe :: "inputs \<Rightarrow> state \<Rightarrow> state" where
  "failSafe inp s =
     (if launched s \<and> millis_failsafe inp - coil0TriggerTime s > FAIL_SAFE_LIMIT then
        exec [Serial_println ''Launch taking too long.  Shutting down!'',
              digitalWrite TRIGGER0 False,
              digitalWrite TRIGGER1 False,
              launched_update (\<lambda>_. False),
              coil0Active_update (\<lambda>_. False),
              coil1Active_update (\<lambda>_. False)] s
      else s)"

text \<open>Lines 104 to 108: the indicator.\<close>

definition indicator :: "state \<Rightarrow> state" where
  "indicator s =
     (if coil0Active s \<or> coil1Active s then turnLED RED s
      else if \<not> coil0Active s \<and> \<not> coil1Active s \<and> \<not> readyToLaunch s then turnLED BLUE s
      else s)"

text \<open>Lines 111 to 129: the two hall sensors; a sensor reads LOW when the sled is there.\<close>

definition checkHall1 :: "inputs \<Rightarrow> state \<Rightarrow> state" where
  "checkHall1 inp s =
     (if launched s \<and> \<not> hall1Tripped s \<and> \<not> hall1_trip inp then
        exec [hall1Tripped_update (\<lambda>_. True),
              hall1TripTime_update (\<lambda>_. millis_hall1 inp),
              Serial_print ''Hall1 at '',
              (\<lambda>s. Serial_print_ulong (hall1TripTime s - coil0TriggerTime s) s),
              Serial_println '' ms''] s
      else s)"

definition checkHall2 :: "inputs \<Rightarrow> state \<Rightarrow> state" where
  "checkHall2 inp s =
     (if launched s \<and> \<not> hall2Tripped s \<and> \<not> hall2_trip inp then
        exec [hall2Tripped_update (\<lambda>_. True),
              hall2TripTime_update (\<lambda>_. millis_hall2 inp),
              Serial_print ''Hall2 at '',
              (\<lambda>s. Serial_print_ulong (hall2TripTime s - coil0TriggerTime s) s),
              Serial_println '' ms''] s
      else s)"

text \<open>
  Lines 133 to 149: the speeds. The two divisions are unsigned 32-bit divisions
  (\<open>45000\<close> and \<open>100000\<close> do not fit the 16-bit \<open>int\<close>, so they are \<open>long\<close>, converted to
  \<open>unsigned long\<close>). The source divides with no test of the divisor; a zero divisor is
  the error \<open>DivisionByZero\<close> here, raised where the division stands.
\<close>

datatype error = DivisionByZero

definition reportSpeed :: "state \<Rightarrow> error + state" where
  "reportSpeed s =
     (if hall1Tripped s \<and> hall2Tripped s then
        (if hall1TripTime s - coil0TriggerTime s = 0 then Inl DivisionByZero
         else
           let hall1SledSpeed = 45000 div (hall1TripTime s - coil0TriggerTime s);
               s = exec [Serial_print ''Hall1 Speed: '',
                         Serial_print_ulong hall1SledSpeed,
                         Serial_println '' mm/s''] s
           in if hall2TripTime s - hall1TripTime s = 0 then Inl DivisionByZero
              else
                let hall2SledSpeed = 100000 div (hall2TripTime s - hall1TripTime s)
                in Inr (exec [Serial_print ''Hall2 Speed: '',
                              Serial_print_ulong hall2SledSpeed,
                              Serial_println '' mm/s'',
                              hall1Tripped_update (\<lambda>_. False),
                              hall2Tripped_update (\<lambda>_. False),
                              launched_update (\<lambda>_. False)] s))
      else Inr s)"

text \<open>
  A call of \<open>checkSwitch\<close> that made \<open>reads\<close> reads has called \<open>delay(1)\<close> before each of
  them but the first.
\<close>

definition polled :: "nat \<Rightarrow> state \<Rightarrow> state" where
  "polled reads s = (delay 1 ^^ (reads - 1)) s"

text \<open>
  Lines 152 to 157: the rearm. \<open>checkSwitch\<close> is called only when the cooldown test
  holds; \<open>None\<close> is a call that never returns.
\<close>

definition rearm :: "inputs \<Rightarrow> state \<Rightarrow> state option" where
  "rearm inp s =
     (if millis_rearm inp - coil0TriggerTime s > REARM_DELAY then
        (case checkSwitch_reads (switch_rearm inp) of
           None \<Rightarrow> None
         | Some (level, reads) \<Rightarrow>
             let s = polled reads s
             in if level then
                  Some (let s = s\<lparr>readyToLaunch := True\<rparr>
                        in if \<not> coil0Active s \<and> \<not> coil1Active s then turnLED GREEN s else s)
                else Some s)
      else Some s)"

text \<open>Lines 158 to 169: coil0 is fired.\<close>

definition fireCoil0 :: "inputs \<Rightarrow> state \<Rightarrow> state option" where
  "fireCoil0 inp s =
     (if readyToLaunch s \<and> \<not> coil0Active s \<and> \<not> coil1Active s \<and>
         hall1_fire inp \<and> hall2_fire inp then
        (case checkSwitch_reads (switch_fire inp) of
           None \<Rightarrow> None
         | Some (level, reads) \<Rightarrow>
             let s = polled reads s
             in if \<not> level then
                  Some (exec [readyToLaunch_update (\<lambda>_. False),
                              launched_update (\<lambda>_. True),
                              coil0Active_update (\<lambda>_. True),
                              Serial_println ''Coil0 Fired: 0ms'',
                              digitalWrite TRIGGER0 True,
                              coil0TriggerTime_update (\<lambda>_. millis_coil0 inp)] s)
                else Some s)
      else Some s)"

text \<open>
  Lines 172 to 189: coil1 is fired. The block is cut where it blocks in
  \<open>delay(holdOffDelay)\<close>: the statements before the call, then the call and the rest.
\<close>

definition coil1_before_delay :: "(state \<Rightarrow> state) list" where
  "coil1_before_delay =
     [digitalWrite TRIGGER0 False,
      coil0Active_update (\<lambda>_. False),
      coil1Active_update (\<lambda>_. True),
      Serial_print ''Holdoff delay '',
      (\<lambda>s. Serial_print_int (holdOffDelay s) s),
      Serial_println '' ms'']"

definition coil1_from_delay :: "inputs \<Rightarrow> (state \<Rightarrow> state) list" where
  "coil1_from_delay inp =
     [(\<lambda>s. delay (word_of_int (holdOffDelay s)) s),
      digitalWrite TRIGGER1 True,
      coil1TriggerTime_update (\<lambda>_. millis_coil1 inp),
      Serial_print ''Coil1 Fired: '',
      (\<lambda>s. Serial_print_ulong (coil1TriggerTime s - coil0TriggerTime s) s),
      Serial_println '' ms'']"

definition fireCoil1 :: "inputs \<Rightarrow> state \<Rightarrow> state" where
  "fireCoil1 inp s =
     (if launched s \<and> \<not> coil1Active s \<and> \<not> hall1_coil1 inp then
        exec (coil1_before_delay @ coil1_from_delay inp) s
      else s)"

text \<open>Lines 192 to 205: the coils are turned off after the pulse width.\<close>

definition coil0Off :: "inputs \<Rightarrow> state \<Rightarrow> state" where
  "coil0Off inp s =
     (if coil0Active s \<and> millis_off0 inp - coil0TriggerTime s > pulseWidth s then
        exec [coil0Active_update (\<lambda>_. False),
              digitalWrite TRIGGER0 False,
              Serial_println ''Turn off coil0''] s
      else s)"

definition coil1Off :: "inputs \<Rightarrow> state \<Rightarrow> state" where
  "coil1Off inp s =
     (if coil1Active s \<and> millis_off1 inp - coil1TriggerTime s > pulseWidth s then
        exec [coil1Active_update (\<lambda>_. False),
              digitalWrite TRIGGER1 False,
              Serial_println ''Turn off coil1''] s
      else s)"

subsection \<open>loop() and the runs of the sketch\<close>

text \<open>
  The blocks up to the sensors always return; the speed report can divide by zero; each
  of the next two blocks can stay in \<open>checkSwitch\<close> for ever (\<open>None\<close>).
\<close>

definition sense :: "inputs \<Rightarrow> state \<Rightarrow> state" where
  "sense inp s = checkHall2 inp (checkHall1 inp (indicator (failSafe inp (readHoldOff inp s))))"

definition loop :: "inputs \<Rightarrow> state \<Rightarrow> (error + state) option" where
  "loop inp s =
     (case reportSpeed (sense inp s) of
        Inl e \<Rightarrow> Some (Inl e)
      | Inr s \<Rightarrow>
          (case rearm inp s of
             None \<Rightarrow> None
           | Some s \<Rightarrow>
               (case fireCoil0 inp s of
                  None \<Rightarrow> None
                | Some s \<Rightarrow> Some (Inr (coil1Off inp (coil0Off inp (fireCoil1 inp s)))))))"

text \<open>
  The states that one run of \<open>loop()\<close> passes through: the state after each block, as
  far as the run gets, and the state in which the firing of coil1 waits in its \<open>delay\<close>.
\<close>

definition stages :: "inputs \<Rightarrow> state \<Rightarrow> state list" where
  "stages inp s =
     (let s1 = readHoldOff inp s; s2 = failSafe inp s1; s3 = indicator s2;
          s4 = checkHall1 inp s3; s5 = checkHall2 inp s4
      in [s1, s2, s3, s4, s5] @
         (case reportSpeed s5 of
            Inl e \<Rightarrow> []
          | Inr s6 \<Rightarrow> s6 #
              (case rearm inp s6 of
                 None \<Rightarrow> []
               | Some s7 \<Rightarrow> s7 #
                   (case fireCoil0 inp s7 of
                      None \<Rightarrow> []
                    | Some s8 \<Rightarrow>
                        [s8,
                         if launched s8 \<and> \<not> coil1Active s8 \<and> \<not> hall1_coil1 inp
                         then exec coil1_before_delay s8 else s8,
                         fireCoil1 inp s8,
                         coil0Off inp (fireCoil1 inp s8),
                         coil1Off inp (coil0Off inp (fireCoil1 inp s8))]))))"

text \<open>
  The globals as their initialisers leave them (the two \<open>millis()\<close> of lines 51 and 52
  are parameters, the globals without initialiser are zero), and \<open>setup()\<close>.
\<close>

definition initial :: "ulong \<Rightarrow> ulong \<Rightarrow> state" where
  "initial t0 t1 =
     \<lparr>coil0TriggerTime = t0, coil1TriggerTime = t1, hall1TripTime = 0, hall2TripTime = 0,
      pulseWidth = 30, holdOffDelay = 0, readyToLaunch = True, launched = False,
      coil0Active = False, coil1Active = False, hall1Tripped = False, hall2Tripped = False,
      trace = []\<rparr>"

definition setup_sketch :: "state \<Rightarrow> state" where
  "setup_sketch s =
     exec [Serial_begin 9600,
           delay 1000,
           pinMode HALL_SENSOR1 INPUT_PULLUP,
           pinMode HALL_SENSOR2 INPUT_PULLUP,
           pinMode LAUNCH_SWITCH INPUT_PULLUP,
           pinMode TRIGGER0 OUTPUT,
           pinMode TRIGGER1 OUTPUT,
           pinMode LED_RED_PIN OUTPUT,
           pinMode LED_BLUE_PIN OUTPUT,
           pinMode LED_GREEN_PIN OUTPUT,
           digitalWrite LED_RED_PIN True,
           digitalWrite LED_GREEN_PIN False,
           digitalWrite LED_BLUE_PIN True] s"

text \<open>The states between two runs of \<open>loop()\<close>.\<close>

inductive reachable :: "state \<Rightarrow> bool" where
  start: "reachable (setup_sketch (initial t0 t1))"
| step: "reachable s \<Longrightarrow> loop inp s = Some (Inr s') \<Longrightarrow> reachable s'"

text \<open>\<open>loop()\<close> called once for each element of a list of inputs.\<close>

fun loops :: "inputs list \<Rightarrow> state \<Rightarrow> (error + state) option" where
  "loops [] s = Some (Inr s)"
| "loops (inp # inps) s =
     (case loop inp s of
        Some (Inr s') \<Rightarrow> loops inps s'
      | r \<Rightarrow> r)"

text \<open>What a run that returned shows of a field; \<open>None\<close> for a run that did not return.\<close>

definition observed :: "(state \<Rightarrow> 'a) \<Rightarrow> (error + state) option \<Rightarrow> 'a option" where
  "observed field r = (case r of Some (Inr s) \<Rightarrow> Some (field s) | _ \<Rightarrow> None)"

text \<open>
  The state after these calls; the state before them when they do not all return.
\<close>

definition after :: "inputs list \<Rightarrow> state \<Rightarrow> state" where
  "after inps s = (case loops inps s of Some (Inr s') \<Rightarrow> s' | _ \<Rightarrow> s)"

text \<open>The blocks of \<open>loop()\<close> up to the rearm, lines 90 to 157.\<close>

definition rearmed :: "inputs \<Rightarrow> state \<Rightarrow> (error + state) option" where
  "rearmed inp s =
     (case reportSpeed (sense inp s) of
        Inl e \<Rightarrow> Some (Inl e)
      | Inr s \<Rightarrow> (case rearm inp s of None \<Rightarrow> None | Some s \<Rightarrow> Some (Inr s)))"

text \<open>
  The invariant behind the exclusion of the coils: a coil line is HIGH only while the
  flag of its coil is set, the flags are not both set, and the lines never were both
  HIGH.
\<close>

definition coil_inv :: "state \<Rightarrow> bool" where
  "coil_inv s \<longleftrightarrow>
     (pin_level TRIGGER0 (trace s) \<longrightarrow> coil0Active s) \<and>
     (pin_level TRIGGER1 (trace s) \<longrightarrow> coil1Active s) \<and>
     \<not> (coil0Active s \<and> coil1Active s) \<and>
     never_both (trace s)"

subsection \<open>The clock of the board\<close>

text \<open>
  The inputs above leave the clock free: any reading can follow any other. On the board
  the \<open>millis_\<close> fields of a run are the clock when the run passes their lines, and the
  clock advances by little over a stretch of code that calls neither \<open>delay\<close> nor
  \<open>checkSwitch\<close>. \<open>advance a b\<close> is the time in ms from the reading \<open>a\<close> to the reading
  \<open>b\<close> (the clock wraps after \<open>2 ^ 32\<close> ms).
\<close>

definition advance :: "ulong \<Rightarrow> ulong \<Rightarrow> nat" where
  "advance a b = unat (b - a)"

text \<open>
  \<open>steady_clock g prev inp s\<close>: in the run of \<open>loop()\<close> from \<open>s\<close> with the inputs \<open>inp\<close>,
  started when the clock showed \<open>prev\<close> at the end of the run before, every stretch
  without a blocking call takes at most \<open>g\<close> ms. From line 152 to line 168 there are
  the two calls of \<open>checkSwitch\<close>, which take as long as the switch bounces: that stretch
  is bounded only when neither call is made, as is the case when \<open>readyToLaunch\<close> is
  false and the cooldown test fails. From line 168 to line 183 there is
  \<open>delay(holdOffDelay)\<close>, of at most 102 ms.
\<close>

definition steady_clock :: "nat \<Rightarrow> ulong \<Rightarrow> inputs \<Rightarrow> state \<Rightarrow> bool" where
  "steady_clock g prev inp s \<longleftrightarrow>
     advance prev (millis_failsafe inp) \<le> g \<and>
     advance (millis_failsafe inp) (millis_hall1 inp) \<le> g \<and>
     advance (millis_hall1 inp) (millis_hall2 inp) \<le> g \<and>
     advance (millis_hall2 inp) (millis_rearm inp) \<le> g \<and>
     (\<not> readyToLaunch s \<and> \<not> millis_rearm inp - coil0TriggerTime s > REARM_DELAY \<longrightarrow>
        advance (millis_rearm inp) (millis_coil0 inp) \<le> g) \<and>
     advance (millis_coil0 inp) (millis_coil1 inp) \<le> g + 102 \<and>
     advance (millis_coil1 inp) (millis_off0 inp) \<le> g \<and>
     advance (millis_off0 inp) (millis_off1 inp) \<le> g"

text \<open>
  The states between two runs of \<open>loop()\<close> that the sketch reaches with such a clock,
  each with the clock reading at the end of the run that led to it.
\<close>

inductive reached :: "nat \<Rightarrow> state \<Rightarrow> ulong \<Rightarrow> bool" for g :: nat where
  power_up: "reached g (setup_sketch (initial t0 t1)) now"
| run: "reached g s prev \<Longrightarrow> steady_clock g prev inp s \<Longrightarrow> loop inp s = Some (Inr s') \<Longrightarrow>
        reached g s' (millis_off1 inp)"

text \<open>
  What holds of these states: while \<open>readyToLaunch\<close> is set no coil is active and no
  launch is under way; an active coil0 was fired at most 30 + \<open>g\<close> ms ago; an active
  coil1 was fired at most 30 ms ago and at most 1102 + 5 \<open>g\<close> ms after coil0.
\<close>

definition ready_inv :: "state \<Rightarrow> bool" where
  "ready_inv s \<longleftrightarrow>
     (readyToLaunch s \<longrightarrow> \<not> coil0Active s \<and> \<not> coil1Active s \<and> \<not> launched s)"

definition timing_inv :: "nat \<Rightarrow> state \<Rightarrow> ulong \<Rightarrow> bool" where
  "timing_inv g s prev \<longleftrightarrow>
     pulseWidth s = 30 \<and> ready_inv s \<and>
     (coil0Active s \<longrightarrow> advance (coil0TriggerTime s) prev \<le> 30 + g) \<and>
     (coil1Active s \<longrightarrow>
        advance (coil1TriggerTime s) prev \<le> 30 \<and>
        advance (coil0TriggerTime s) (coil1TriggerTime s) \<le> 1102 + 5 * g)"

subsection \<open>Some concrete runs\<close>

text \<open>
  A run of \<open>loop()\<close> during which the clock shows \<open>t\<close> at every read, no sled is at a
  sensor (both read HIGH), the switch is released (HIGH) and the potentiometer is at 0.
\<close>

definition inputs_at :: "ulong \<Rightarrow> inputs" where
  "inputs_at t =
     \<lparr>analog_holdoff = 0, millis_failsafe = t, hall1_trip = True, millis_hall1 = t,
      hall2_trip = True, millis_hall2 = t, millis_rearm = t, switch_rearm = (\<lambda>_. True),
      hall1_fire = True, hall2_fire = True, switch_fire = (\<lambda>_. True), millis_coil0 = t,
      hall1_coil1 = True, millis_coil1 = t, millis_off0 = t, millis_off1 = t\<rparr>"

text \<open>
  The same with the switch held down (LOW) when line 158 looks at it; the twenty polls
  of the debounce take 20 ms, so the reads after it show \<open>t + 20\<close>.
\<close>

definition press_at :: "ulong \<Rightarrow> inputs" where
  "press_at t =
     (inputs_at t)\<lparr>switch_fire := (\<lambda>_. False), millis_coil0 := t + 20, millis_coil1 := t + 20,
       millis_off0 := t + 20, millis_off1 := t + 20\<rparr>"

text \<open>
  A run of \<open>loop()\<close> during which both sensors read LOW (the sled, or a stray field, is
  at both), the clock shows \<open>t1\<close> when line 113 reads it and \<open>t2\<close> at every other read.
\<close>

definition sensors_at :: "ulong \<Rightarrow> ulong \<Rightarrow> inputs" where
  "sensors_at t1 t2 =
     (inputs_at t2)\<lparr>hall1_trip := False, millis_hall1 := t1, hall2_trip := False,
                     hall1_fire := False, hall2_fire := False, hall1_coil1 := False\<rparr>"

text \<open>
  A run of \<open>loop()\<close> during which sensor 1 reads LOW (the sled is at it) and the clock
  shows \<open>t\<close> at every read.
\<close>

definition sled_at_1 :: "ulong \<Rightarrow> inputs" where
  "sled_at_1 t = (inputs_at t)\<lparr>hall1_trip := False, hall1_fire := False, hall1_coil1 := False\<rparr>"

text \<open>
  A run of \<open>loop()\<close> during which the clock advances by \<open>d\<close> from each of its reads to
  the next, starting from \<open>t\<close> with \<open>t + d\<close> at the fail-safe test; no sled, the switch
  released.
\<close>

definition ticking :: "ulong \<Rightarrow> ulong \<Rightarrow> inputs" where
  "ticking t d =
     (inputs_at t)\<lparr>millis_failsafe := t + d, millis_hall1 := t + 2 * d,
       millis_hall2 := t + 3 * d, millis_rearm := t + 4 * d, millis_coil0 := t + 5 * d,
       millis_coil1 := t + 6 * d, millis_off0 := t + 7 * d, millis_off1 := t + 8 * d\<rparr>"

text \<open>The sketch after \<open>setup()\<close>, with the clock at 0 when the globals were initialised.\<close>

definition power_on :: state where
  "power_on = setup_sketch (initial 0 0)"

section \<open>Properties\<close>

subsection \<open>checkSwitch returns with the first stable window\<close>

lemma run_inv_init: "run_inv rd 0 0 p st"
  by (simp add: run_inv_def)

lemma run_inv_same:
  assumes "run_inv rd j c p st" "c < 20" "rd (Suc (j + c)) = p"
  shows "run_inv rd j (Suc c) p (rd (Suc (j + c)))"
proof -
  from assms(1) have old: "\<forall>k<c. rd (Suc (j + k)) = p" 
    and mx: "0 < j \<longrightarrow> rd j \<noteq> p" and nb: "\<forall>m<j. \<not> stable_from rd m"
    unfolding run_inv_def by blast+
  have "\<forall>k<Suc c. rd (Suc (j + k)) = p"
  proof (intro allI impI)
    fix k assume "k < Suc c"
    then have "k < c \<or> k = c" by arith
    then show "rd (Suc (j + k)) = p" using old assms(3) by blast
  qed
  with assms(2,3) mx nb show ?thesis
    unfolding run_inv_def by simp
qed

lemma run_inv_unstable_within:
  assumes "run_inv rd j c p st" "c < 20" "rd (Suc (j + c)) \<noteq> p" "m < j + c"
  shows "\<not> stable_from rd m"
proof (cases "m < j")
  case True
  with assms(1) show ?thesis unfolding run_inv_def by blast
next
  case False
  then obtain d where m: "m = j + d" by (auto simp: not_less le_iff_add)
  with assms(4) have d: "d < c" by simp
  then obtain e where c: "c = d + e" by (auto simp: less_iff_Suc_add)
  from assms(1) d have "rd (Suc (j + d)) = p" unfolding run_inv_def by blast
  with m have first: "rd (Suc m) = p" by simp
  from c m have "Suc (j + c) = Suc (m + e)" by simp
  with assms(3) have last: "rd (Suc (m + e)) \<noteq> p" by simp
  from c assms(2) have "e < 20" by simp
  show ?thesis
  proof
    assume "stable_from rd m"
    with \<open>e < 20\<close> have "rd (Suc (m + e)) = rd (Suc m)" unfolding stable_from_def by blast
    with first last show False by simp
  qed
qed

lemma run_inv_change:
  assumes "run_inv rd j c p st" "c < 20" "rd (Suc (j + c)) \<noteq> p"
  shows "run_inv rd (j + c) (Suc 0) (rd (Suc (j + c))) (rd (Suc (j + c)))"
proof -
  have nb: "\<forall>m<j + c. \<not> stable_from rd m"
    using run_inv_unstable_within[OF assms] by blast
  have mx: "0 < j + c \<longrightarrow> rd (j + c) \<noteq> rd (Suc (j + c))"
  proof (cases c)
    case 0
    with assms(1) have "j = 0" unfolding run_inv_def by blast
    with 0 show ?thesis by simp
  next
    case (Suc c0)
    with assms(1) have "rd (Suc (j + c0)) = p" unfolding run_inv_def by blast
    with Suc assms(3) show ?thesis by simp
  qed
  from nb mx show ?thesis unfolding run_inv_def by simp
qed

lemma run_inv_exit:
  assumes "run_inv rd j c p st" "\<not> c < 20"
  shows "c = 20" and "stable_from rd j" and "st = rd (j + 20)" and "\<forall>m<j. \<not> stable_from rd m"
proof -
  from assms show c: "c = 20" unfolding run_inv_def by simp
  from assms(1) c have all: "\<forall>k<20. rd (Suc (j + k)) = p" and st: "st = p"
    unfolding run_inv_def by simp_all
  from assms(1) show "\<forall>m<j. \<not> stable_from rd m"
    unfolding run_inv_def by simp
  from all[rule_format, of 0] have p: "rd (Suc j) = p" by simp
  from all[rule_format, of 19] have q: "rd (j + 20) = p" by (simp add: add.commute)
  from q st show "st = rd (j + 20)" by simp
  from all p show "stable_from rd j" unfolding stable_from_def by simp
qed

lemma checkSwitch_loop_sound_aux:
  assumes "checkSwitch_loop rd i c p st = Some y"
  shows "\<forall>j. i = Suc (j + c) \<longrightarrow> run_inv rd j c p st \<longrightarrow> first_stable rd y"
proof (rule checkSwitch_loop.raw_induct[OF _ assms,
    where P = "\<lambda>rd i c p st y. \<forall>j. i = Suc (j + c) \<longrightarrow> run_inv rd j c p st \<longrightarrow> first_stable rd y"])
  fix f :: "(nat \<Rightarrow> bool) \<Rightarrow> nat \<Rightarrow> nat \<Rightarrow> bool \<Rightarrow> bool \<Rightarrow> (bool \<times> nat) option"
  fix rd i c p st y
  assume IH: "\<And>rd i c p st y. f rd i c p st = Some y \<Longrightarrow>
     \<forall>j. i = Suc (j + c) \<longrightarrow> run_inv rd j c p st \<longrightarrow> first_stable rd y"
  assume body: "(if c < debounceDelay
      then let state' = rd i
           in if state' \<noteq> p then f rd (Suc i) (Suc 0) state' state'
              else f rd (Suc i) (Suc c) p state'
      else Some (st, i)) = Some y"
  show "\<forall>j. i = Suc (j + c) \<longrightarrow> run_inv rd j c p st \<longrightarrow> first_stable rd y"
  proof (intro allI impI)
    fix j
    assume i: "i = Suc (j + c)" and inv: "run_inv rd j c p st"
    show "first_stable rd y"
    proof (cases "c < 20")
      case False
      with body have y: "y = (st, i)" by (simp add: debounceDelay_def Let_def)
      note ex = run_inv_exit[OF inv False]
      from y i ex(1,3) have "y = (rd (j + 20), j + 21)" by simp
      with ex(2,4) show ?thesis unfolding first_stable_def by blast
    next
      case True
      show ?thesis
      proof (cases "rd i = p")
        case same: True
        with True body have "f rd (Suc i) (Suc c) p (rd i) = Some y"
          by (simp add: debounceDelay_def Let_def)
        moreover have "Suc i = Suc (j + Suc c)" using i by simp
        moreover have "run_inv rd j (Suc c) p (rd i)"
          using run_inv_same[OF inv True] same i by simp
        ultimately show ?thesis using IH by blast
      next
        case diff: False
        with True body have "f rd (Suc i) (Suc 0) (rd i) (rd i) = Some y"
          by (simp add: debounceDelay_def Let_def)
        moreover have "Suc i = Suc (j + c + Suc 0)" using i by simp
        moreover have "run_inv rd (j + c) (Suc 0) (rd i) (rd i)"
          using run_inv_change[OF inv True] diff i by simp
        ultimately show ?thesis using IH by blast
      qed
    qed
  qed
qed

lemma checkSwitch_loop_sound:
  assumes "checkSwitch_loop rd i c p st = Some y" "i = Suc (j + c)" "run_inv rd j c p st"
  shows "first_stable rd y"
  using checkSwitch_loop_sound_aux[OF assms(1)] assms(2,3) by blast

lemma checkSwitch_loop_complete:
  assumes "stable_from rd n" "\<forall>m<n. \<not> stable_from rd m"
  shows "run_inv rd j c p st \<Longrightarrow> j \<le> n \<Longrightarrow>
           checkSwitch_loop rd (Suc (j + c)) c p st = Some (rd (n + 20), n + 21)"
proof (induction "n + 20 - (j + c)" arbitrary: j c p st rule: less_induct)
  case less
  show ?case
  proof (cases "c < 20")
    case False
    note ex = run_inv_exit[OF less.prems(1) False]
    note c = ex(1) and sj = ex(2) and st = ex(3)
    have "\<not> j < n" using sj assms(2) by blast
    with less.prems(2) have "j = n" by simp
    with c st show ?thesis
      by (subst checkSwitch_loop.simps) (simp add: debounceDelay_def)
  next
    case True
    show ?thesis
    proof (cases "rd (Suc (j + c)) = p")
      case same: True
      have "n + 20 - (j + Suc c) < n + 20 - (j + c)" using True less.prems(2) by arith
      from less.hyps[OF this run_inv_same[OF less.prems(1) True same] less.prems(2)] True same
      show ?thesis
        by (subst checkSwitch_loop.simps) (simp add: debounceDelay_def)
    next
      case diff: False
      have le: "j + c \<le> n"
      proof (rule ccontr)
        assume "\<not> j + c \<le> n"
        then have "n < j + c" by simp
        from run_inv_unstable_within[OF less.prems(1) True diff this] assms(1)
        show False by simp
      qed
      have "n + 20 - (j + c + Suc 0) < n + 20 - (j + c)" using le by arith
      from less.hyps[OF this run_inv_change[OF less.prems(1) True diff] le] True diff
      show ?thesis
        by (subst checkSwitch_loop.simps) (simp add: debounceDelay_def)
    qed
  qed
qed

lemma checkSwitch_reads_first_stable:
  assumes "stable_from rd n" "\<forall>m<n. \<not> stable_from rd m"
  shows "checkSwitch_reads rd = Some (rd (n + 20), n + 21)"
proof -
  have "checkSwitch_loop rd (Suc (0 + 0)) 0 (rd 0) False = Some (rd (n + 20), n + 21)"
    by (rule checkSwitch_loop_complete[OF assms run_inv_init]) simp
  then show ?thesis unfolding checkSwitch_reads_def by simp
qed

lemma checkSwitch_reads_Some:
  assumes "checkSwitch_reads rd = Some y"
  shows "first_stable rd y"
proof -
  from assms have "checkSwitch_loop rd (Suc 0) 0 (rd 0) False = Some y"
    unfolding checkSwitch_reads_def .
  moreover have "Suc 0 = Suc (0 + 0)" by simp
  ultimately show ?thesis using run_inv_init by (rule checkSwitch_loop_sound)
qed

lemma checkSwitch_reads_iff:
  "checkSwitch_reads rd = Some y \<longleftrightarrow> first_stable rd y"
proof
  assume "checkSwitch_reads rd = Some y"
  then show "first_stable rd y" by (rule checkSwitch_reads_Some)
next
  assume "first_stable rd y"
  then obtain m where y: "y = (rd (m + 20), m + 21)" and st: "stable_from rd m"
    and least: "\<forall>m'<m. \<not> stable_from rd m'"
    unfolding first_stable_def by blast
  from checkSwitch_reads_first_stable[OF st least] y show "checkSwitch_reads rd = Some y"
    by simp
qed

lemma checkSwitch_loop_change:
  assumes "c < debounceDelay" "rd i \<noteq> p"
  shows "checkSwitch_loop rd i c p st = checkSwitch_loop rd (Suc i) (Suc 0) (rd i) (rd i)"
  using assms by (subst checkSwitch_loop.simps) (simp add: Let_def)

lemma stable_from_all_equal:
  assumes "stable_from rd m" "k < 20"
  shows "rd (Suc (m + k)) = rd (m + 20)"
proof -
  from assms have "rd (Suc (m + k)) = rd (Suc m)" unfolding stable_from_def by blast
  moreover have "(19::nat) < 20" by simp
  with assms(1) have "rd (Suc (m + 19)) = rd (Suc m)" unfolding stable_from_def by blast
  then have "rd (m + 20) = rd (Suc m)" by (simp add: add.commute)
  ultimately show ?thesis by simp
qed

lemma checkSwitch_reads_contract:
  "(checkSwitch_reads rd = Some (b, n) \<longleftrightarrow>
      (\<exists>m. n = m + 21 \<and> b = rd (m + 20) \<and> (\<forall>k<20. rd (Suc (m + k)) = b) \<and>
           (\<forall>m'<m. \<not> stable_from rd m'))) \<and>
   (c < debounceDelay \<and> rd i \<noteq> p \<longrightarrow>
      checkSwitch_loop rd i c p st = checkSwitch_loop rd (Suc i) (Suc 0) (rd i) (rd i))"
proof (intro conjI impI)
  show "checkSwitch_reads rd = Some (b, n) \<longleftrightarrow>
      (\<exists>m. n = m + 21 \<and> b = rd (m + 20) \<and> (\<forall>k<20. rd (Suc (m + k)) = b) \<and>
           (\<forall>m'<m. \<not> stable_from rd m'))"
  proof
    assume "checkSwitch_reads rd = Some (b, n)"
    then have "first_stable rd (b, n)" by (simp add: checkSwitch_reads_iff)
    then obtain m where m: "n = m + 21" "b = rd (m + 20)" "stable_from rd m"
      "\<forall>m'<m. \<not> stable_from rd m'"
      unfolding first_stable_def by blast
    from m(2,3) have "\<forall>k<20. rd (Suc (m + k)) = b"
      using stable_from_all_equal[of rd m] by simp
    with m show "\<exists>m. n = m + 21 \<and> b = rd (m + 20) \<and> (\<forall>k<20. rd (Suc (m + k)) = b) \<and>
           (\<forall>m'<m. \<not> stable_from rd m')" by blast
  next
    assume "\<exists>m. n = m + 21 \<and> b = rd (m + 20) \<and> (\<forall>k<20. rd (Suc (m + k)) = b) \<and>
           (\<forall>m'<m. \<not> stable_from rd m')"
    then obtain m where m: "n = m + 21" "b = rd (m + 20)" "\<forall>k<20. rd (Suc (m + k)) = b"
      "\<forall>m'<m. \<not> stable_from rd m'" by blast
    have "(0::nat) < 20" by simp
    with m(3) have "rd (Suc (m + 0)) = b" by blast
    with m(3) have "stable_from rd m" unfolding stable_from_def by simp
    with m(1,2,4) have "first_stable rd (b, n)" unfolding first_stable_def by blast
    then show "checkSwitch_reads rd = Some (b, n)" by (simp add: checkSwitch_reads_iff)
  qed
next
  assume "c < debounceDelay \<and> rd i \<noteq> p"
  then show "checkSwitch_loop rd i c p st = checkSwitch_loop rd (Suc i) (Suc 0) (rd i) (rd i)"
    by (simp add: checkSwitch_loop_change)
qed

lemma checkSwitch_reads_link:
  "checkSwitch rd = Some b \<longleftrightarrow> (\<exists>n. checkSwitch_reads rd = Some (b, n))"
proof (cases "checkSwitch_reads rd")
  case None
  then show ?thesis by (simp add: checkSwitch_def)
next
  case (Some y)
  obtain state reads where y: "y = (state, reads)" by (cases y)
  show ?thesis
  proof (cases state)
    case True
    with Some y show ?thesis by (cases b) (simp_all add: checkSwitch_def)
  next
    case False
    with Some y show ?thesis by (cases b) (simp_all add: checkSwitch_def)
  qed
qed

lemma checkSwitch_None_link: "checkSwitch rd = None \<longleftrightarrow> checkSwitch_reads rd = None"
proof (cases "checkSwitch_reads rd")
  case None
  then show ?thesis by (simp add: checkSwitch_def)
next
  case (Some y)
  obtain state reads where y: "y = (state, reads)" by (cases y)
  with Some show ?thesis by (cases state) (simp_all add: checkSwitch_def)
qed

text \<open>
  C7. The debounce contract of \<open>checkSwitch\<close>. The function returns the level \<open>b\<close>
  (\<open>True\<close> for HIGH, \<open>False\<close> for LOW) exactly when its loop ends with \<open>b\<close> in \<open>state\<close>, and
  that is exactly when twenty polls in a row, \<open>rd (m + 1), \<dots>, rd (m + 20)\<close>, all show
  \<open>b\<close> and no earlier run of twenty polls showed one level; the call then has made
  \<open>m + 21\<close> reads, and \<open>b\<close> is the level of the last poll. A poll that differs from the
  previous level restarts the count: the counter is set back and counts that poll as the
  first of a new run.
\<close>

theorem checkSwitch_debounce_contract:
  "(checkSwitch rd = Some b \<longleftrightarrow> (\<exists>n. checkSwitch_reads rd = Some (b, n))) \<and>
   (checkSwitch rd = None \<longleftrightarrow> checkSwitch_reads rd = None) \<and>
   (checkSwitch rd = Some b \<longleftrightarrow>
      (\<exists>m. b = rd (m + 20) \<and> (\<forall>k<20. rd (Suc (m + k)) = b) \<and>
           (\<forall>m'<m. \<not> stable_from rd m'))) \<and>
   (checkSwitch_reads rd = Some (b, n) \<longleftrightarrow>
      (\<exists>m. n = m + 21 \<and> b = rd (m + 20) \<and> (\<forall>k<20. rd (Suc (m + k)) = b) \<and>
           (\<forall>m'<m. \<not> stable_from rd m'))) \<and>
   (c < debounceDelay \<and> rd i \<noteq> p \<longrightarrow>
      checkSwitch_loop rd i c p st = checkSwitch_loop rd (Suc i) (Suc 0) (rd i) (rd i))"
proof -
  have 1: "checkSwitch rd = Some b \<longleftrightarrow> (\<exists>n. checkSwitch_reads rd = Some (b, n))"
    by (rule checkSwitch_reads_link)
  have 2: "checkSwitch rd = None \<longleftrightarrow> checkSwitch_reads rd = None"
    by (rule checkSwitch_None_link)
  have r: "\<And>n. checkSwitch_reads rd = Some (b, n) \<longleftrightarrow>
      (\<exists>m. n = m + 21 \<and> b = rd (m + 20) \<and> (\<forall>k<20. rd (Suc (m + k)) = b) \<and>
           (\<forall>m'<m. \<not> stable_from rd m'))"
    using checkSwitch_reads_contract[of rd b _ c i p st] by (rule conjunct1)
  have 3: "checkSwitch rd = Some b \<longleftrightarrow>
      (\<exists>m. b = rd (m + 20) \<and> (\<forall>k<20. rd (Suc (m + k)) = b) \<and>
           (\<forall>m'<m. \<not> stable_from rd m'))"
    unfolding 1 r by blast
  have 5: "c < debounceDelay \<and> rd i \<noteq> p \<longrightarrow>
      checkSwitch_loop rd i c p st = checkSwitch_loop rd (Suc i) (Suc 0) (rd i) (rd i)"
    using checkSwitch_reads_contract[of rd b n c i p st] by (rule conjunct2)
  from 1 2 3 r[of n] 5 show ?thesis by (intro conjI)
qed

lemma late_release_least: "\<forall>m'<4. \<not> stable_from (\<lambda>k. k < 5) m'"
proof (intro allI impI notI)
  fix m' :: nat assume m: "m' < 4" and st: "stable_from (\<lambda>k. k < 5) m'"
  have "(4::nat) < 20" by simp
  with st have "(Suc (m' + 4) < 5) = (Suc m' < 5)" unfolding stable_from_def by blast
  with m show False by simp
qed

theorem checkSwitch_debounce_contract_witness:
  "checkSwitch (\<lambda>k. k < 5) = Some False \<and>
   checkSwitch (\<lambda>k. k < 5) \<noteq> Some True \<and>
   checkSwitch_reads (\<lambda>k. k < 5) = Some (False, 25) \<and>
   checkSwitch_loop (\<lambda>k. k < 5) 5 4 True True = checkSwitch_loop (\<lambda>k. k < 5) 6 (Suc 0) False False"
proof -
  note T = checkSwitch_debounce_contract[of "\<lambda>k. k < 5" False 25 4 5 True True]
  have e: "\<exists>m. (25::nat) = m + 21 \<and> False = (m + 20 < 5) \<and> (\<forall>k<20. (Suc (m + k) < 5) = False) \<and>
           (\<forall>m'<m. \<not> stable_from (\<lambda>k. k < 5) m')"
    using late_release_least by (intro exI[of _ 4]) simp
  have d: "(4::nat) < debounceDelay \<and> ((5::nat) < 5) \<noteq> True" by (simp add: debounceDelay_def)
  from T e have r: "checkSwitch_reads (\<lambda>k. k < 5) = Some (False, 25)" by blast
  with T have c: "checkSwitch (\<lambda>k. k < 5) = Some False" by blast
  then have "checkSwitch (\<lambda>k. k < 5) \<noteq> Some True" by simp
  moreover from T d have "checkSwitch_loop (\<lambda>k. k < 5) 5 4 True True =
      checkSwitch_loop (\<lambda>k. k < 5) 6 (Suc 0) False False" by simp
  ultimately show ?thesis using r c by blast
qed

subsection \<open>When checkSwitch returns\<close>

lemma stable_from_has_no_change:
  assumes "stable_from rd m" "k < 19"
  shows "rd (Suc m + k) = rd (Suc (Suc m + k))"
proof -
  from assms(2) have "k < 20" "Suc k < 20" by simp_all
  with assms(1) have "rd (Suc (m + k)) = rd (Suc m)" "rd (Suc (m + Suc k)) = rd (Suc m)"
    unfolding stable_from_def by blast+
  then show ?thesis by simp
qed

lemma checkSwitch_reads_None:
  assumes "\<forall>m. \<not> stable_from rd m"
  shows "checkSwitch_reads rd = None"
proof (cases "checkSwitch_reads rd")
  case None then show ?thesis .
next
  case (Some y)
  then have "first_stable rd y" by (simp add: checkSwitch_reads_iff)
  with assms show ?thesis unfolding first_stable_def by blast
qed

lemma checkSwitch_reads_Least:
  assumes "stable_from rd m"
  shows "checkSwitch_reads rd = Some (rd (Suc (LEAST m. stable_from rd m)), (LEAST m. stable_from rd m) + 21)"
proof -
  let ?n = "LEAST m. stable_from rd m"
  from assms have st: "stable_from rd ?n" by (rule LeastI)
  have least: "\<forall>m'<?n. \<not> stable_from rd m'" using not_less_Least by blast
  have "(0::nat) < 20" by simp
  from stable_from_all_equal[OF st this] have "rd (?n + 20) = rd (Suc ?n)" by simp
  with checkSwitch_reads_first_stable[OF st least] show ?thesis by simp
qed

lemma every_window_changes_unstable:
  assumes "\<forall>j. \<exists>k<19. rd (j + k) \<noteq> rd (Suc (j + k))"
  shows "\<not> stable_from rd m"
proof
  assume st: "stable_from rd m"
  from assms obtain k where k: "k < 19" "rd (Suc m + k) \<noteq> rd (Suc (Suc m + k))" by blast
  with stable_from_has_no_change[OF st k(1)] show False by simp
qed

subsection \<open>Traces and line levels\<close>

lemmas stmt_defs = exec_def emit_def digitalWrite_def pinMode_def delay_def Serial_begin_def
  Serial_print_def Serial_print_ulong_def Serial_print_int_def Serial_println_def

lemmas pin_defs = TRIGGER0_def TRIGGER1_def LED_RED_PIN_def LED_GREEN_PIN_def LED_BLUE_PIN_def
  HALL_SENSOR1_def HALL_SENSOR2_def LAUNCH_SWITCH_def

lemma pin_level_Nil: "pin_level p [] = False"
  by (simp add: pin_level_def)

lemma pin_level_snoc: "pin_level p (evs @ [e]) = pin_after p (pin_level p evs) e"
  by (simp add: pin_level_def)

lemma pin_level_append:
  "pin_level p (evs @ evs') = foldl (pin_after p) (pin_level p evs) evs'"
  by (simp add: pin_level_def)

lemma never_both_Nil: "never_both []"
  by (simp add: never_both_def pin_level_Nil)

lemma never_both_snoc:
  "never_both (evs @ [e]) \<longleftrightarrow>
     never_both evs \<and> \<not> (pin_level TRIGGER0 (evs @ [e]) \<and> pin_level TRIGGER1 (evs @ [e]))"
  by (auto simp: never_both_def)

lemma never_both_append:
  "never_both (evs @ evs') \<longleftrightarrow>
     never_both evs \<and> lines_ok (pin_level TRIGGER0 evs) (pin_level TRIGGER1 evs) evs'"
proof (induction evs' arbitrary: evs)
  case Nil
  show ?case by simp
next
  case (Cons e es)
  have "never_both (evs @ e # es) = never_both ((evs @ [e]) @ es)" by simp
  also have "\<dots> = (never_both (evs @ [e]) \<and>
      lines_ok (pin_level TRIGGER0 (evs @ [e])) (pin_level TRIGGER1 (evs @ [e])) es)"
    by (rule Cons.IH)
  finally show ?case
    by (auto simp: never_both_snoc pin_level_snoc)
qed

lemma never_both_now:
  "never_both evs \<Longrightarrow> \<not> (pin_level TRIGGER0 evs \<and> pin_level TRIGGER1 evs)"
  by (auto simp: never_both_def)

lemma foldl_pin_after_delays: "foldl (pin_after p) a (replicate k (Delay d)) = a"
  by (induction k) simp_all

lemma pin_level_delays: "pin_level p (evs @ replicate k (Delay d)) = pin_level p evs"
  by (simp add: pin_level_append foldl_pin_after_delays)

lemma lines_ok_delays: "\<not> (a \<and> b) \<Longrightarrow> lines_ok a b (replicate k (Delay d))"
  by (induction k) simp_all

lemma never_both_delays: "never_both (evs @ replicate k (Delay d)) = never_both evs"
  using never_both_now[of evs] lines_ok_delays[of "pin_level TRIGGER0 evs" "pin_level TRIGGER1 evs" k d]
  by (auto simp: never_both_append)

lemma delays_funpow: "(delay d ^^ k) s = s\<lparr>trace := trace s @ replicate k (Delay d)\<rparr>"
proof (induction k)
  case 0
  show ?case by simp
next
  case (Suc k)
  then show ?case by (simp add: delay_def emit_def replicate_append_same)
qed

lemma polled_eq: "polled n s = s\<lparr>trace := trace s @ replicate (n - 1) (Delay 1)\<rparr>"
  by (simp add: polled_def delays_funpow)

subsection \<open>The invariant of the coil lines\<close>

lemma coil_inv_polled: "coil_inv (polled n s) = coil_inv s"
  by (simp add: polled_eq coil_inv_def pin_level_delays never_both_delays)

lemma coil_inv_turnLED: "coil_inv (turnLED color s) = coil_inv s"
  by (auto simp: turnLED_def coil_inv_def stmt_defs pin_level_append never_both_append pin_defs)

lemma coil_inv_readHoldOff: "coil_inv (readHoldOff inp s) = coil_inv s"
  by (simp add: readHoldOff_def coil_inv_def)

lemma coil_inv_failSafe: "coil_inv s \<Longrightarrow> coil_inv (failSafe inp s)"
  by (auto simp: failSafe_def coil_inv_def stmt_defs pin_level_append never_both_append pin_defs)

lemma coil_inv_indicator: "coil_inv s \<Longrightarrow> coil_inv (indicator s)"
  by (simp add: indicator_def coil_inv_turnLED)

lemma coil_inv_checkHall1: "coil_inv s \<Longrightarrow> coil_inv (checkHall1 inp s)"
  by (auto simp: checkHall1_def coil_inv_def stmt_defs pin_level_append never_both_append pin_defs)

lemma coil_inv_checkHall2: "coil_inv s \<Longrightarrow> coil_inv (checkHall2 inp s)"
  by (auto simp: checkHall2_def coil_inv_def stmt_defs pin_level_append never_both_append pin_defs)

lemma coil_inv_sense: "coil_inv s \<Longrightarrow> coil_inv (sense inp s)"
  by (simp add: sense_def coil_inv_checkHall2 coil_inv_checkHall1 coil_inv_indicator
      coil_inv_failSafe coil_inv_readHoldOff)

lemma coil_inv_reportSpeed: "coil_inv s \<Longrightarrow> reportSpeed s = Inr s' \<Longrightarrow> coil_inv s'"
  by (auto simp: reportSpeed_def coil_inv_def stmt_defs pin_level_append never_both_append pin_defs
      Let_def split: if_splits)

lemma coil_inv_rearm: "coil_inv s \<Longrightarrow> rearm inp s = Some s' \<Longrightarrow> coil_inv s'"
proof -
  have upd: "\<And>s. coil_inv (s\<lparr>readyToLaunch := True\<rparr>) = coil_inv s"
    by (simp add: coil_inv_def)
  assume "coil_inv s" "rearm inp s = Some s'"
  then show ?thesis
    by (auto simp: rearm_def Let_def coil_inv_polled coil_inv_turnLED upd
        split: if_splits option.splits)
qed

lemma coil_inv_fireCoil0: "coil_inv s \<Longrightarrow> fireCoil0 inp s = Some s' \<Longrightarrow> coil_inv s'"
proof -
  have fire: "\<And>s. coil_inv s \<Longrightarrow> \<not> coil0Active s \<Longrightarrow> \<not> coil1Active s \<Longrightarrow>
     coil_inv (exec [readyToLaunch_update (\<lambda>_. False),
                              launched_update (\<lambda>_. True),
                              coil0Active_update (\<lambda>_. True),
                              Serial_println ''Coil0 Fired: 0ms'',
                              digitalWrite TRIGGER0 True,
                              coil0TriggerTime_update (\<lambda>_. millis_coil0 inp)] s)"
    by (auto simp: coil_inv_def stmt_defs pin_level_append never_both_append pin_defs)
  have flags: "\<And>n s. coil0Active (polled n s) = coil0Active s \<and> coil1Active (polled n s) = coil1Active s"
    by (simp add: polled_eq)
  assume "coil_inv s" "fireCoil0 inp s = Some s'"
  then show ?thesis
    by (auto simp: fireCoil0_def Let_def coil_inv_polled flags intro!: fire
        split: if_splits option.splits)
qed

lemma coil_inv_fireCoil1: "coil_inv s \<Longrightarrow> coil_inv (fireCoil1 inp s)"
  by (auto simp: fireCoil1_def coil1_before_delay_def coil1_from_delay_def coil_inv_def stmt_defs
      pin_level_append never_both_append pin_defs)

lemma coil_inv_coil0Off: "coil_inv s \<Longrightarrow> coil_inv (coil0Off inp s)"
  by (auto simp: coil0Off_def coil_inv_def stmt_defs pin_level_append never_both_append pin_defs)

lemma coil_inv_coil1Off: "coil_inv s \<Longrightarrow> coil_inv (coil1Off inp s)"
  by (auto simp: coil1Off_def coil_inv_def stmt_defs pin_level_append never_both_append pin_defs)

lemma coil_inv_loop:
  assumes "coil_inv s" "loop inp s = Some (Inr s')"
  shows "coil_inv s'"
proof -
  from assms(2) obtain s6 s7 s8 where
    r: "reportSpeed (sense inp s) = Inr s6" and a: "rearm inp s6 = Some s7"
    and f: "fireCoil0 inp s7 = Some s8"
    and e: "s' = coil1Off inp (coil0Off inp (fireCoil1 inp s8))"
    by (auto simp: loop_def split: sum.splits option.splits)
  from assms(1) have "coil_inv (sense inp s)" by (rule coil_inv_sense)
  then have "coil_inv s6" using r by (rule coil_inv_reportSpeed)
  then have "coil_inv s7" using a by (rule coil_inv_rearm)
  then have "coil_inv s8" using f by (rule coil_inv_fireCoil0)
  then show ?thesis unfolding e
    by (intro coil_inv_coil1Off coil_inv_coil0Off coil_inv_fireCoil1)
qed

lemma never_both_lines_ok: "never_both evs = lines_ok False False evs"
  using never_both_append[of "[]" evs] by (simp add: never_both_Nil pin_level_Nil)

lemma coil_inv_start: "coil_inv (setup_sketch (initial t0 t1))"
  by (simp add: setup_sketch_def initial_def coil_inv_def stmt_defs pin_level_def
      never_both_lines_ok pin_defs)

lemma reachable_coil_inv: "reachable s \<Longrightarrow> coil_inv s"
  by (induction rule: reachable.induct) (auto intro: coil_inv_start coil_inv_loop)

subsection \<open>Running the blocks\<close>

lemma checkSwitch_reads_const: "checkSwitch_reads (\<lambda>_. b) = Some (b, 21)"
proof -
  have "stable_from (\<lambda>_. b) 0" by (simp add: stable_from_def)
  from checkSwitch_reads_first_stable[OF this] show ?thesis by simp
qed

lemmas block_defs = readHoldOff_def failSafe_def indicator_def checkHall1_def checkHall2_def
  reportSpeed_def rearm_def fireCoil0_def fireCoil1_def coil1_before_delay_def
  coil1_from_delay_def coil0Off_def coil1Off_def turnLED_def sense_def

lemma loop_Some_blocks:
  assumes "loop inp s = Some (Inr s')"
  obtains s6 s7 s8 where "reportSpeed (sense inp s) = Inr s6" "rearm inp s6 = Some s7"
    "fireCoil0 inp s7 = Some s8" "s' = coil1Off inp (coil0Off inp (fireCoil1 inp s8))"
  using assms by (auto simp: loop_def split: sum.splits option.splits)

lemmas run_simps = loop_def block_defs press_at_def inputs_at_def power_on_def
  setup_sketch_def initial_def stmt_defs checkSwitch_reads_const polled_eq REARM_DELAY_def
  FAIL_SAFE_LIMIT_def Let_def observed_def


lemma reachable_loops:
  "reachable s \<Longrightarrow> loops inps s = Some (Inr s') \<Longrightarrow> reachable s'"
proof (induction inps arbitrary: s)
  case Nil
  then show ?case by simp
next
  case (Cons inp inps)
  from Cons.prems(2) obtain s1 where l: "loop inp s = Some (Inr s1)" and r: "loops inps s1 = Some (Inr s')"
    by (auto split: option.splits sum.splits)
  from Cons.prems(1) l have "reachable s1" by (rule reachable.step)
  then show ?case using r by (rule Cons.IH)
qed

lemma reachable_power_on: "reachable power_on"
  unfolding power_on_def by (rule reachable.start)

lemma reachable_after: "reachable s \<Longrightarrow> reachable (after inps s)"
  by (auto simp: after_def split: option.splits sum.splits intro: reachable_loops)

subsection \<open>The fail-safe\<close>

lemma stages_failSafe: "stages inp s ! 1 = failSafe inp (readHoldOff inp s)"
  by (simp add: stages_def Let_def)

lemma readHoldOff_frame:
  "launched (readHoldOff inp s) = launched s"
  "coil0TriggerTime (readHoldOff inp s) = coil0TriggerTime s"
  "coil1TriggerTime (readHoldOff inp s) = coil1TriggerTime s"
  "hall1TripTime (readHoldOff inp s) = hall1TripTime s"
  "hall2TripTime (readHoldOff inp s) = hall2TripTime s"
  "readyToLaunch (readHoldOff inp s) = readyToLaunch s"
  "hall1Tripped (readHoldOff inp s) = hall1Tripped s"
  "hall2Tripped (readHoldOff inp s) = hall2Tripped s"
  "trace (readHoldOff inp s) = trace s"
  by (simp_all add: readHoldOff_def)

text \<open>
  C2. In every run of \<open>loop()\<close> that starts with \<open>launched\<close> set and reads, at the
  fail-safe test, a clock more than \<open>FAIL_SAFE_LIMIT\<close> past \<open>coil0TriggerTime\<close>, the
  fail-safe block prints its line, writes both coil lines LOW and clears \<open>launched\<close>,
  \<open>coil0Active\<close> and \<open>coil1Active\<close>; it changes nothing else: \<open>readyToLaunch\<close>, the two
  tripped flags and the four recorded times are as before. This holds of the block, and
  of the state in which the run of \<open>loop()\<close> leaves the block (the second of its stages,
  from which the rest of \<open>loop()\<close> goes on).
\<close>

theorem failSafe_shutdown:
  assumes "launched s" "millis_failsafe inp - coil0TriggerTime s > FAIL_SAFE_LIMIT"
  shows "failSafe inp s =
           s\<lparr>launched := False, coil0Active := False, coil1Active := False,
             trace := trace s @ [SerialText ''Launch taking too long.  Shutting down!'', SerialEOL,
                                 DigitalWrite TRIGGER0 False, DigitalWrite TRIGGER1 False]\<rparr> \<and>
         \<not> pin_level TRIGGER0 (trace (failSafe inp s)) \<and>
         \<not> pin_level TRIGGER1 (trace (failSafe inp s)) \<and>
         \<not> launched (failSafe inp s) \<and> \<not> coil0Active (failSafe inp s) \<and>
         \<not> coil1Active (failSafe inp s) \<and>
         readyToLaunch (failSafe inp s) = readyToLaunch s \<and>
         hall1Tripped (failSafe inp s) = hall1Tripped s \<and>
         hall2Tripped (failSafe inp s) = hall2Tripped s \<and>
         coil0TriggerTime (failSafe inp s) = coil0TriggerTime s \<and>
         coil1TriggerTime (failSafe inp s) = coil1TriggerTime s \<and>
         hall1TripTime (failSafe inp s) = hall1TripTime s \<and>
         hall2TripTime (failSafe inp s) = hall2TripTime s \<and>
         stages inp s ! 1 =
           (readHoldOff inp s)\<lparr>launched := False, coil0Active := False, coil1Active := False,
             trace := trace s @ [SerialText ''Launch taking too long.  Shutting down!'', SerialEOL,
                                 DigitalWrite TRIGGER0 False, DigitalWrite TRIGGER1 False]\<rparr> \<and>
         sense inp s =
           checkHall2 inp (checkHall1 inp (indicator
             ((readHoldOff inp s)\<lparr>launched := False, coil0Active := False, coil1Active := False,
               trace := trace s @
                 [SerialText ''Launch taking too long.  Shutting down!'', SerialEOL,
                  DigitalWrite TRIGGER0 False, DigitalWrite TRIGGER1 False]\<rparr>))) \<and>
         loop inp s =
           (case reportSpeed (checkHall2 inp (checkHall1 inp (indicator (stages inp s ! 1)))) of
              Inl e \<Rightarrow> Some (Inl e)
            | Inr s6 \<Rightarrow>
                (case rearm inp s6 of
                   None \<Rightarrow> None
                 | Some s7 \<Rightarrow>
                     (case fireCoil0 inp s7 of
                        None \<Rightarrow> None
                      | Some s8 \<Rightarrow>
                          Some (Inr (coil1Off inp (coil0Off inp (fireCoil1 inp s8))))))) \<and>
         \<not> pin_level TRIGGER0 (trace (stages inp s ! 1)) \<and>
         \<not> pin_level TRIGGER1 (trace (stages inp s ! 1)) \<and>
         \<not> launched (stages inp s ! 1) \<and> \<not> coil0Active (stages inp s ! 1) \<and>
         \<not> coil1Active (stages inp s ! 1) \<and>
         readyToLaunch (stages inp s ! 1) = readyToLaunch s \<and>
         hall1Tripped (stages inp s ! 1) = hall1Tripped s \<and>
         hall2Tripped (stages inp s ! 1) = hall2Tripped s \<and>
         coil0TriggerTime (stages inp s ! 1) = coil0TriggerTime s \<and>
         coil1TriggerTime (stages inp s ! 1) = coil1TriggerTime s \<and>
         hall1TripTime (stages inp s ! 1) = hall1TripTime s \<and>
         hall2TripTime (stages inp s ! 1) = hall2TripTime s"
proof -
  let ?X = "(readHoldOff inp s)\<lparr>launched := False, coil0Active := False, coil1Active := False,
             trace := trace s @ [SerialText ''Launch taking too long.  Shutting down!'', SerialEOL,
                                 DigitalWrite TRIGGER0 False, DigitalWrite TRIGGER1 False]\<rparr>"
  have block: "failSafe inp s =
           s\<lparr>launched := False, coil0Active := False, coil1Active := False,
             trace := trace s @ [SerialText ''Launch taking too long.  Shutting down!'', SerialEOL,
                                 DigitalWrite TRIGGER0 False, DigitalWrite TRIGGER1 False]\<rparr>"
    using assms by (simp add: failSafe_def stmt_defs)
  have X: "failSafe inp (readHoldOff inp s) = ?X"
    using assms by (simp add: failSafe_def stmt_defs readHoldOff_frame)
  have st: "stages inp s ! 1 = ?X" by (simp only: stages_failSafe X)
  have se: "sense inp s = checkHall2 inp (checkHall1 inp (indicator ?X))"
    by (simp only: sense_def X)
  have lo: "loop inp s =
           (case reportSpeed (checkHall2 inp (checkHall1 inp (indicator (stages inp s ! 1)))) of
              Inl e \<Rightarrow> Some (Inl e)
            | Inr s6 \<Rightarrow>
                (case rearm inp s6 of
                   None \<Rightarrow> None
                 | Some s7 \<Rightarrow>
                     (case fireCoil0 inp s7 of
                        None \<Rightarrow> None
                      | Some s8 \<Rightarrow>
                          Some (Inr (coil1Off inp (coil0Off inp (fireCoil1 inp s8)))))))"
    by (simp only: loop_def sense_def stages_failSafe)
  have st': "stages inp s ! Suc 0 = ?X" using st by simp
  show ?thesis
    by (intro conjI)
      (simp_all add: block st st' se lo pin_level_append pin_defs readHoldOff_frame)
qed

theorem failSafe_shutdown_witness:
  "launched (after [press_at 100] power_on) \<and>
   millis_failsafe (inputs_at 1500) - coil0TriggerTime (after [press_at 100] power_on)
     > FAIL_SAFE_LIMIT \<and>
   coil0Active (after [press_at 100] power_on) \<and>
   \<not> launched (failSafe (inputs_at 1500) (after [press_at 100] power_on)) \<and>
   \<not> coil0Active (failSafe (inputs_at 1500) (after [press_at 100] power_on)) \<and>
   \<not> pin_level TRIGGER0 (trace (failSafe (inputs_at 1500) (after [press_at 100] power_on))) \<and>
   coil0TriggerTime (failSafe (inputs_at 1500) (after [press_at 100] power_on)) = 120 \<and>
   \<not> launched (stages (inputs_at 1500) (after [press_at 100] power_on) ! 1) \<and>
   \<not> coil0Active (stages (inputs_at 1500) (after [press_at 100] power_on) ! 1) \<and>
   \<not> pin_level TRIGGER0
       (trace (stages (inputs_at 1500) (after [press_at 100] power_on) ! 1)) \<and>
   coil0TriggerTime (stages (inputs_at 1500) (after [press_at 100] power_on) ! 1) = 120"
proof -
  let ?s = "after [press_at 100] power_on"
  let ?i = "inputs_at 1500"
  have l: "launched ?s"
    by (simp add: run_simps after_def)
  have t: "millis_failsafe ?i - coil0TriggerTime ?s > FAIL_SAFE_LIMIT"
    by (simp add: run_simps after_def)
  have c: "coil0Active ?s"
    by (simp add: run_simps after_def)
  have T: "coil0TriggerTime ?s = 120"
    by (simp add: run_simps after_def)
  note F = failSafe_shutdown[OF l t]
  have b: "\<not> pin_level TRIGGER0 (trace (failSafe ?i ?s)) \<and>
      \<not> launched (failSafe ?i ?s) \<and> \<not> coil0Active (failSafe ?i ?s) \<and>
      coil0TriggerTime (failSafe ?i ?s) = coil0TriggerTime ?s"
    using F by blast
  have g: "\<not> pin_level TRIGGER0 (trace (stages ?i ?s ! 1)) \<and>
      \<not> launched (stages ?i ?s ! 1) \<and> \<not> coil0Active (stages ?i ?s ! 1) \<and>
      coil0TriggerTime (stages ?i ?s ! 1) = coil0TriggerTime ?s"
    using F by blast
  from l t c T b g show ?thesis by simp
qed

subsection \<open>The speeds\<close>



text \<open>
  C6. The speed report divides without a test of the divisor: whenever both flags are
  set and \<open>hall1TripTime\<close> equals \<open>coil0TriggerTime\<close>, or \<open>hall2TripTime\<close> equals
  \<open>hall1TripTime\<close>, it ends in the division by zero. Both cases are reached from power-on:
  coil0 is fired at 120 ms, and in the next run of \<open>loop()\<close> both sensors read LOW within
  one millisecond (at 120 ms, or at 125 ms).
\<close>

theorem reportSpeed_division_by_zero:
  "(hall1Tripped s \<and> hall2Tripped s \<and>
      (hall1TripTime s = coil0TriggerTime s \<or> hall2TripTime s = hall1TripTime s) \<longrightarrow>
      reportSpeed s = Inl DivisionByZero) \<and>
   reachable (after [press_at 100] power_on) \<and>
   loop (sensors_at 120 120) (after [press_at 100] power_on) = Some (Inl DivisionByZero) \<and>
   loop (sensors_at 125 125) (after [press_at 100] power_on) = Some (Inl DivisionByZero)"
proof (intro conjI impI)
  assume "hall1Tripped s \<and> hall2Tripped s \<and>
      (hall1TripTime s = coil0TriggerTime s \<or> hall2TripTime s = hall1TripTime s)"
  then show "reportSpeed s = Inl DivisionByZero"
    by (auto simp: reportSpeed_def stmt_defs Let_def)
next
  show "reachable (after [press_at 100] power_on)"
    by (intro reachable_after reachable_power_on)
next
  show "loop (sensors_at 120 120) (after [press_at 100] power_on) = Some (Inl DivisionByZero)"
    by (simp add: run_simps after_def sensors_at_def)
next
  show "loop (sensors_at 125 125) (after [press_at 100] power_on) = Some (Inl DivisionByZero)"
    by (simp add: run_simps after_def sensors_at_def)
qed

theorem reportSpeed_division_by_zero_witness:
  "reportSpeed (power_on\<lparr>launched := True, hall1Tripped := True, hall2Tripped := True,
                  coil0TriggerTime := 1000, hall1TripTime := 1000, hall2TripTime := 1300\<rparr>) =
     Inl DivisionByZero"
  using reportSpeed_division_by_zero[of "power_on\<lparr>launched := True, hall1Tripped := True, hall2Tripped := True,
                  coil0TriggerTime := 1000, hall1TripTime := 1000, hall2TripTime := 1300\<rparr>"]
  by simp

subsection \<open>The hold-off delay\<close>

lemma holdOffDelay_loop:
  assumes "loop inp s = Some (Inr s')"
  shows "holdOffDelay s' = map_long (analog_holdoff inp) 0 1023 0 102"
proof -
  from assms obtain s6 s7 s8 where
    r: "reportSpeed (sense inp s) = Inr s6" and a: "rearm inp s6 = Some s7"
    and f: "fireCoil0 inp s7 = Some s8"
    and e: "s' = coil1Off inp (coil0Off inp (fireCoil1 inp s8))"
    by (rule loop_Some_blocks)
  have "holdOffDelay (sense inp s) = map_long (analog_holdoff inp) 0 1023 0 102"
    by (simp add: block_defs stmt_defs)
  with r have "holdOffDelay s6 = map_long (analog_holdoff inp) 0 1023 0 102"
    by (auto simp: reportSpeed_def stmt_defs Let_def split: if_splits)
  with a have "holdOffDelay s7 = map_long (analog_holdoff inp) 0 1023 0 102"
    by (auto simp: rearm_def turnLED_def polled_eq stmt_defs Let_def split: if_splits option.splits)
  with f have "holdOffDelay s8 = map_long (analog_holdoff inp) 0 1023 0 102"
    by (auto simp: fireCoil0_def polled_eq stmt_defs Let_def split: if_splits option.splits)
  then show ?thesis unfolding e
    by (simp add: block_defs stmt_defs)
qed

lemma map_long_holdoff:
  assumes "0 \<le> a" "a \<le> 1023"
  shows "map_long a 0 1023 0 102 = a * 102 div 1023"
  using assms by (simp add: map_long_def c_div_def sgn_if)

text \<open>
  C8. \<open>holdOffDelay\<close> is computed anew by every run of \<open>loop()\<close> from the analog reading
  of that run, as the truncated quotient \<open>reading * 102 / 1023\<close>; for a reading from 0 to
  1023 it lies between 0 and 102.
\<close>

theorem holdOffDelay_bound:
  assumes "0 \<le> analog_holdoff inp" "analog_holdoff inp \<le> 1023"
  shows "holdOffDelay (readHoldOff inp s) = analog_holdoff inp * 102 div 1023 \<and>
         0 \<le> holdOffDelay (readHoldOff inp s) \<and> holdOffDelay (readHoldOff inp s) \<le> 102 \<and>
         (loop inp s = Some (Inr s') \<longrightarrow>
            holdOffDelay s' = analog_holdoff inp * 102 div 1023 \<and>
            0 \<le> holdOffDelay s' \<and> holdOffDelay s' \<le> 102)"
proof -
  let ?d = "analog_holdoff inp * 102 div 1023"
  have m: "map_long (analog_holdoff inp) 0 1023 0 102 = ?d"
    using assms by (rule map_long_holdoff)
  have lo: "0 \<le> ?d" using assms(1) by simp
  have hi: "?d \<le> 102" using assms(2) by simp
  have r: "holdOffDelay (readHoldOff inp s) = ?d" by (simp add: readHoldOff_def m)
  have l: "loop inp s = Some (Inr s') \<longrightarrow> holdOffDelay s' = ?d"
    using holdOffDelay_loop[of inp s s'] m by simp
  from r l lo hi show ?thesis by simp
qed

theorem holdOffDelay_bound_witness:
  "holdOffDelay (readHoldOff ((inputs_at 100)\<lparr>analog_holdoff := 1023\<rparr>) power_on) = 102 \<and>
   holdOffDelay (readHoldOff ((inputs_at 100)\<lparr>analog_holdoff := 512\<rparr>) power_on) = 51 \<and>
   observed holdOffDelay (loop ((inputs_at 100)\<lparr>analog_holdoff := 1023\<rparr>) power_on) = Some 102"
proof -
  have a: "loop ((inputs_at 100)\<lparr>analog_holdoff := 1023\<rparr>) power_on =
      Some (Inr (after [(inputs_at 100)\<lparr>analog_holdoff := 1023\<rparr>] power_on))"
    by (simp add: run_simps after_def)
  from holdOffDelay_bound[of "(inputs_at 100)\<lparr>analog_holdoff := 1023\<rparr>" power_on
      "after [(inputs_at 100)\<lparr>analog_holdoff := 1023\<rparr>] power_on"]
       holdOffDelay_bound[of "(inputs_at 100)\<lparr>analog_holdoff := 512\<rparr>" power_on] a
  show ?thesis by (simp add: inputs_at_def observed_def)
qed

subsection \<open>A bouncing switch blocks loop()\<close>

lemma sense_coil0TriggerTime: "coil0TriggerTime (sense inp s) = coil0TriggerTime s"
  by (simp add: block_defs stmt_defs)

lemma reportSpeed_coil0TriggerTime:
  "reportSpeed s = Inr s' \<Longrightarrow> coil0TriggerTime s' = coil0TriggerTime s"
  by (auto simp: reportSpeed_def stmt_defs Let_def split: if_splits)

text \<open>
  C10. \<open>checkSwitch\<close> returns only for an input that becomes stable. If the polls hold
  one level twenty times in a row somewhere, the call returns, with the level of the
  first such run. If the level changes at least once within every twenty consecutive
  reads, the call never returns, and the run of \<open>loop()\<close> that has reached it (at the
  rearm, or at the firing of coil0) never returns either.
\<close>

theorem checkSwitch_returns_iff_stable:
  "((\<exists>m. stable_from rd m) \<longrightarrow>
      checkSwitch rd = Some (rd (Suc (LEAST m. stable_from rd m)))) \<and>
   ((\<forall>j. \<exists>k<19. rd (j + k) \<noteq> rd (Suc (j + k))) \<longrightarrow> checkSwitch rd = None) \<and>
   ((\<forall>j. \<exists>k<19. switch_rearm inp (j + k) \<noteq> switch_rearm inp (Suc (j + k))) \<and>
    millis_rearm inp - coil0TriggerTime s > REARM_DELAY \<and>
    reportSpeed (sense inp s) \<noteq> Inl DivisionByZero \<longrightarrow> loop inp s = None) \<and>
   ((\<forall>j. \<exists>k<19. switch_fire inp (j + k) \<noteq> switch_fire inp (Suc (j + k))) \<and>
    readyToLaunch t \<and> \<not> coil0Active t \<and> \<not> coil1Active t \<and> hall1_fire inp \<and> hall2_fire inp
      \<longrightarrow> fireCoil0 inp t = None)"
proof (intro conjI impI)
  assume "\<exists>m. stable_from rd m"
  then obtain m where "stable_from rd m" ..
  from checkSwitch_reads_Least[OF this]
  show "checkSwitch rd = Some (rd (Suc (LEAST m. stable_from rd m)))"
    by (simp add: checkSwitch_def)
next
  assume "\<forall>j. \<exists>k<19. rd (j + k) \<noteq> rd (Suc (j + k))"
  then have "\<forall>m. \<not> stable_from rd m" using every_window_changes_unstable by blast
  then show "checkSwitch rd = None" by (simp add: checkSwitch_def checkSwitch_reads_None)
next
  assume a: "(\<forall>j. \<exists>k<19. switch_rearm inp (j + k) \<noteq> switch_rearm inp (Suc (j + k))) \<and>
    millis_rearm inp - coil0TriggerTime s > REARM_DELAY \<and>
    reportSpeed (sense inp s) \<noteq> Inl DivisionByZero"
  then have "\<forall>m. \<not> stable_from (switch_rearm inp) m" using every_window_changes_unstable by blast
  then have n: "checkSwitch_reads (switch_rearm inp) = None" by (rule checkSwitch_reads_None)
  from a obtain s6 where r: "reportSpeed (sense inp s) = Inr s6"
    by (cases "reportSpeed (sense inp s)") (auto intro: error.exhaust)
  then have "coil0TriggerTime s6 = coil0TriggerTime s"
    by (simp add: reportSpeed_coil0TriggerTime sense_coil0TriggerTime)
  with a n have "rearm inp s6 = None" by (simp add: rearm_def)
  with r show "loop inp s = None" by (simp add: loop_def)
next
  assume a: "(\<forall>j. \<exists>k<19. switch_fire inp (j + k) \<noteq> switch_fire inp (Suc (j + k))) \<and>
    readyToLaunch t \<and> \<not> coil0Active t \<and> \<not> coil1Active t \<and> hall1_fire inp \<and> hall2_fire inp"
  then have "\<forall>m. \<not> stable_from (switch_fire inp) m" using every_window_changes_unstable by blast
  then have n: "checkSwitch_reads (switch_fire inp) = None" by (rule checkSwitch_reads_None)
  with a show "fireCoil0 inp t = None" by (simp add: fireCoil0_def)
qed

lemma bounce_changes: "\<forall>j. \<exists>k<19. even (j + k) \<noteq> even (Suc (j + k))"
proof
  fix j :: nat
  have "(0::nat) < 19 \<and> even (j + 0) \<noteq> even (Suc (j + 0))" by simp
  then show "\<exists>k<19. even (j + k) \<noteq> even (Suc (j + k))" by blast
qed

lemma held_stable: "stable_from (\<lambda>k. 3 \<le> k) 2"
  by (simp add: stable_from_def)

lemma held_least: "(LEAST m. stable_from (\<lambda>k. 3 \<le> k) m) = 2"
proof (rule Least_equality)
  show "stable_from (\<lambda>k. 3 \<le> k) 2" by (rule held_stable)
next
  fix m assume st: "stable_from (\<lambda>k. 3 \<le> k) m"
  show "2 \<le> m"
  proof (rule ccontr)
    assume "\<not> 2 \<le> m"
    then have m: "m < 2" by simp
    have "(2::nat) < 20" by simp
    with st have "(3 \<le> Suc (m + 2)) = (3 \<le> Suc m)" unfolding stable_from_def by blast
    with m show False by simp
  qed
qed

theorem checkSwitch_returns_iff_stable_witness:
  "checkSwitch (\<lambda>k. 3 \<le> k) = Some True \<and>
   checkSwitch even = None \<and>
   loop ((inputs_at 6000)\<lparr>switch_rearm := even\<rparr>) power_on = None \<and>
   fireCoil0 ((inputs_at 100)\<lparr>switch_fire := even\<rparr>) power_on = None"
proof -
  have e: "\<exists>m. stable_from (\<lambda>k. 3 \<le> k) m" using held_stable by blast
  have r: "millis_rearm ((inputs_at 6000)\<lparr>switch_rearm := even\<rparr>) - coil0TriggerTime power_on > REARM_DELAY \<and>
    reportSpeed (sense ((inputs_at 6000)\<lparr>switch_rearm := even\<rparr>) power_on) \<noteq> Inl DivisionByZero"
    by (simp add: run_simps)
  have f: "readyToLaunch power_on \<and> \<not> coil0Active power_on \<and> \<not> coil1Active power_on \<and>
     hall1_fire ((inputs_at 100)\<lparr>switch_fire := even\<rparr>) \<and> hall2_fire ((inputs_at 100)\<lparr>switch_fire := even\<rparr>)"
    by (simp add: run_simps)
  have b1: "\<forall>j. \<exists>k<19. switch_rearm ((inputs_at 6000)\<lparr>switch_rearm := even\<rparr>) (j + k) \<noteq>
       switch_rearm ((inputs_at 6000)\<lparr>switch_rearm := even\<rparr>) (Suc (j + k))"
    using bounce_changes by simp
  have b2: "\<forall>j. \<exists>k<19. switch_fire ((inputs_at 100)\<lparr>switch_fire := even\<rparr>) (j + k) \<noteq>
       switch_fire ((inputs_at 100)\<lparr>switch_fire := even\<rparr>) (Suc (j + k))"
    using bounce_changes by simp
  note t1 = checkSwitch_returns_iff_stable[of "\<lambda>k. 3 \<le> k" "(inputs_at 6000)\<lparr>switch_rearm := even\<rparr>" power_on power_on]
  note t2 = checkSwitch_returns_iff_stable[of even "(inputs_at 100)\<lparr>switch_fire := even\<rparr>" power_on power_on]
  from t1 e have 1: "checkSwitch (\<lambda>k. 3 \<le> k) = Some True" by (simp add: held_least)
  from t2 bounce_changes have 2: "checkSwitch even = None" by blast
  from t1 r b1 have 3: "loop ((inputs_at 6000)\<lparr>switch_rearm := even\<rparr>) power_on = None" by blast
  from t2 f b2 have 4: "fireCoil0 ((inputs_at 100)\<lparr>switch_fire := even\<rparr>) power_on = None" by blast
  from 1 2 3 4 show ?thesis by blast
qed

subsection \<open>The coils are never on together\<close>

lemma coil_inv_before_delay:
  "coil_inv s \<Longrightarrow> coil_inv (exec coil1_before_delay s)"
  by (auto simp: coil1_before_delay_def coil_inv_def stmt_defs pin_level_append
      never_both_append pin_defs)

lemma coil_inv_stages:
  assumes "coil_inv s"
  shows "\<forall>x \<in> set (stages inp s). coil_inv x"
proof -
  let ?s1 = "readHoldOff inp s"
  let ?s2 = "failSafe inp ?s1"
  let ?s3 = "indicator ?s2"
  let ?s4 = "checkHall1 inp ?s3"
  let ?s5 = "checkHall2 inp ?s4"
  have 1: "coil_inv ?s1" using assms by (simp add: coil_inv_readHoldOff)
  then have 2: "coil_inv ?s2" by (rule coil_inv_failSafe)
  then have 3: "coil_inv ?s3" by (rule coil_inv_indicator)
  then have 4: "coil_inv ?s4" by (rule coil_inv_checkHall1)
  then have 5: "coil_inv ?s5" by (rule coil_inv_checkHall2)
  have rest: "\<forall>x \<in> set (case reportSpeed ?s5 of
            Inl e \<Rightarrow> []
          | Inr s6 \<Rightarrow> s6 #
              (case rearm inp s6 of
                 None \<Rightarrow> []
               | Some s7 \<Rightarrow> s7 #
                   (case fireCoil0 inp s7 of
                      None \<Rightarrow> []
                    | Some s8 \<Rightarrow>
                        [s8,
                         if launched s8 \<and> \<not> coil1Active s8 \<and> \<not> hall1_coil1 inp
                         then exec coil1_before_delay s8 else s8,
                         fireCoil1 inp s8,
                         coil0Off inp (fireCoil1 inp s8),
                         coil1Off inp (coil0Off inp (fireCoil1 inp s8))]))). coil_inv x"
  proof (cases "reportSpeed ?s5")
    case (Inl e)
    then show ?thesis by simp
  next
    case (Inr s6)
    with 5 have 6: "coil_inv s6" by (rule coil_inv_reportSpeed)
    show ?thesis
    proof (cases "rearm inp s6")
      case None
      with Inr 6 show ?thesis by simp
    next
      case (Some s7)
      with 6 have 7: "coil_inv s7" by (rule coil_inv_rearm)
      show ?thesis
      proof (cases "fireCoil0 inp s7")
        case None
        with Inr Some 6 7 show ?thesis by simp
      next
        case f: (Some s8)
        with 7 have 8: "coil_inv s8" by (rule coil_inv_fireCoil0)
        from 8 have 9: "coil_inv (exec coil1_before_delay s8)" by (rule coil_inv_before_delay)
        from 8 have 10: "coil_inv (fireCoil1 inp s8)" by (rule coil_inv_fireCoil1)
        then have 11: "coil_inv (coil0Off inp (fireCoil1 inp s8))" by (rule coil_inv_coil0Off)
        then have 12: "coil_inv (coil1Off inp (coil0Off inp (fireCoil1 inp s8)))"
          by (rule coil_inv_coil1Off)
        from Inr Some f 6 7 8 9 10 11 12 show ?thesis by simp
      qed
    qed
  qed
  from 1 2 3 4 5 rest show ?thesis
    unfolding stages_def Let_def by simp
qed

lemma stages_end:
  assumes "loop inp s = Some (Inr s')"
  shows "last (stages inp s) = s'"
proof -
  from assms obtain s6 s7 s8 where
    "reportSpeed (sense inp s) = Inr s6" "rearm inp s6 = Some s7" "fireCoil0 inp s7 = Some s8"
    "s' = coil1Off inp (coil0Off inp (fireCoil1 inp s8))"
    by (rule loop_Some_blocks)
  then show ?thesis by (simp add: stages_def sense_def Let_def)
qed

lemma fireCoil1_split:
  "launched s \<and> \<not> coil1Active s \<and> \<not> hall1_coil1 inp \<Longrightarrow>
     fireCoil1 inp s = exec (coil1_from_delay inp) (exec coil1_before_delay s)"
  by (simp add: fireCoil1_def exec_def)

text \<open>
  C1. In every state that the sketch reaches between two runs of \<open>loop()\<close>, and in every
  state that a run of \<open>loop()\<close> started there passes through, \<open>coil0Active\<close> and
  \<open>coil1Active\<close> are not both set, and at no moment of the trace so far were the two
  trigger lines both HIGH. In the firing of coil1, line TRIGGER0 is written LOW and
  \<open>coil0Active\<close> is cleared before the hold-off \<open>delay\<close>, and line TRIGGER1 is written
  HIGH only after it.
\<close>

theorem coils_never_both_on:
  "(reachable s \<longrightarrow>
      \<not> (coil0Active s \<and> coil1Active s) \<and> never_both (trace s) \<and>
      (\<forall>x \<in> set (stages inp s). \<not> (coil0Active x \<and> coil1Active x) \<and> never_both (trace x))) \<and>
   (launched s \<and> \<not> coil1Active s \<and> \<not> hall1_coil1 inp \<longrightarrow>
      fireCoil1 inp s = exec (coil1_from_delay inp) (exec coil1_before_delay s) \<and>
      \<not> coil0Active (exec coil1_before_delay s) \<and>
      \<not> pin_level TRIGGER0 (trace (exec coil1_before_delay s)) \<and>
      trace (exec coil1_before_delay s) =
        trace s @ [DigitalWrite TRIGGER0 False, SerialText ''Holdoff delay '',
                   SerialInt (holdOffDelay s), SerialText '' ms'', SerialEOL] \<and>
      trace (fireCoil1 inp s) =
        trace (exec coil1_before_delay s) @
          [Delay (word_of_int (holdOffDelay s)), DigitalWrite TRIGGER1 True,
           SerialText ''Coil1 Fired: '', SerialULong (millis_coil1 inp - coil0TriggerTime s),
           SerialText '' ms'', SerialEOL])"
proof (intro conjI impI)
  assume r: "reachable s"
  then have inv: "coil_inv s" by (rule reachable_coil_inv)
  then show "\<not> (coil0Active s \<and> coil1Active s)" by (simp add: coil_inv_def)
  from inv show "never_both (trace s)" by (simp add: coil_inv_def)
  from coil_inv_stages[OF inv, of inp]
  show "\<forall>x \<in> set (stages inp s). \<not> (coil0Active x \<and> coil1Active x) \<and> never_both (trace x)"
    by (simp add: coil_inv_def)
next
  assume a: "launched s \<and> \<not> coil1Active s \<and> \<not> hall1_coil1 inp"
  then show "fireCoil1 inp s = exec (coil1_from_delay inp) (exec coil1_before_delay s)"
    by (rule fireCoil1_split)
  show "\<not> coil0Active (exec coil1_before_delay s)"
    by (simp add: coil1_before_delay_def stmt_defs)
  show "\<not> pin_level TRIGGER0 (trace (exec coil1_before_delay s))"
    by (simp add: coil1_before_delay_def stmt_defs pin_level_append pin_defs)
  show "trace (exec coil1_before_delay s) =
        trace s @ [DigitalWrite TRIGGER0 False, SerialText ''Holdoff delay '',
                   SerialInt (holdOffDelay s), SerialText '' ms'', SerialEOL]"
    by (simp add: coil1_before_delay_def stmt_defs)
  from a show "trace (fireCoil1 inp s) =
        trace (exec coil1_before_delay s) @
          [Delay (word_of_int (holdOffDelay s)), DigitalWrite TRIGGER1 True,
           SerialText ''Coil1 Fired: '', SerialULong (millis_coil1 inp - coil0TriggerTime s),
           SerialText '' ms'', SerialEOL]"
    by (simp add: fireCoil1_def coil1_before_delay_def coil1_from_delay_def stmt_defs)
qed

theorem coils_never_both_on_witness:
  "reachable (after [press_at 100] power_on) \<and>
   coil0Active (after [press_at 100] power_on) \<and>
   pin_level TRIGGER0 (trace (after [press_at 100] power_on)) \<and>
   \<not> coil1Active (after [press_at 100] power_on) \<and>
   never_both (trace (after [press_at 100] power_on)) \<and>
   \<not> coil0Active (fireCoil1 (sled_at_1 130) (after [press_at 100] power_on)) \<and>
   coil1Active (fireCoil1 (sled_at_1 130) (after [press_at 100] power_on)) \<and>
   \<not> pin_level TRIGGER0 (trace (exec coil1_before_delay (after [press_at 100] power_on))) \<and>
   never_both (trace (after [press_at 100, sled_at_1 130] power_on))"
proof -
  let ?s = "after [press_at 100] power_on"
  have r: "reachable ?s" by (intro reachable_after reachable_power_on)
  have r2: "reachable (after [press_at 100, sled_at_1 130] power_on)"
    by (intro reachable_after reachable_power_on)
  have c: "coil0Active ?s \<and> pin_level TRIGGER0 (trace ?s) \<and> \<not> coil1Active ?s \<and> launched ?s \<and>
     \<not> hall1_coil1 (sled_at_1 130)"
    by (simp add: run_simps after_def pin_level_def pin_defs sled_at_1_def)
  have f: "\<not> coil0Active (fireCoil1 (sled_at_1 130) ?s) \<and> coil1Active (fireCoil1 (sled_at_1 130) ?s)"
    using c by (simp add: fireCoil1_def coil1_before_delay_def coil1_from_delay_def stmt_defs)
  from coils_never_both_on[of ?s "sled_at_1 130"]
       coils_never_both_on[of "after [press_at 100, sled_at_1 130] power_on" "sled_at_1 130"]
       r r2 c f
  show ?thesis by blast
qed

subsection \<open>What the blocks leave alone\<close>

lemma sense_frame:
  "coil0TriggerTime (sense inp s) = coil0TriggerTime s"
  "coil1TriggerTime (sense inp s) = coil1TriggerTime s"
  "pulseWidth (sense inp s) = pulseWidth s"
  "readyToLaunch (sense inp s) = readyToLaunch s"
  by (simp_all add: block_defs stmt_defs)

lemma sense_coils:
  assumes "\<not> (launched s \<and> millis_failsafe inp - coil0TriggerTime s > FAIL_SAFE_LIMIT)"
  shows "coil0Active (sense inp s) = coil0Active s" "coil1Active (sense inp s) = coil1Active s"
  using assms by (auto simp: block_defs stmt_defs)

lemma reportSpeed_cases:
  assumes "reportSpeed s = Inr s'"
  obtains (skip) "\<not> (hall1Tripped s \<and> hall2Tripped s)" "s' = s"
  | (report) "hall1Tripped s" "hall2Tripped s"
      "s' = s\<lparr>hall1Tripped := False, hall2Tripped := False, launched := False,
                 trace := trace s @
                   [SerialText ''Hall1 Speed: '',
                    SerialULong (45000 div (hall1TripTime s - coil0TriggerTime s)),
                    SerialText '' mm/s'', SerialEOL,
                    SerialText ''Hall2 Speed: '',
                    SerialULong (100000 div (hall2TripTime s - hall1TripTime s)),
                    SerialText '' mm/s'', SerialEOL]\<rparr>"
proof (cases "hall1Tripped s \<and> hall2Tripped s")
  case False
  with assms have "s' = s" by (simp add: reportSpeed_def)
  with False show ?thesis by (rule skip)
next
  case True
  with assms have d1: "hall1TripTime s - coil0TriggerTime s \<noteq> 0"
    by (auto simp: reportSpeed_def)
  with True assms have d2: "hall2TripTime s - hall1TripTime s \<noteq> 0"
    by (auto simp: reportSpeed_def stmt_defs Let_def)
  from True d1 d2 assms have "s' = s\<lparr>hall1Tripped := False, hall2Tripped := False, launched := False,
                 trace := trace s @
                   [SerialText ''Hall1 Speed: '',
                    SerialULong (45000 div (hall1TripTime s - coil0TriggerTime s)),
                    SerialText '' mm/s'', SerialEOL,
                    SerialText ''Hall2 Speed: '',
                    SerialULong (100000 div (hall2TripTime s - hall1TripTime s)),
                    SerialText '' mm/s'', SerialEOL]\<rparr>"
    by (auto simp: reportSpeed_def stmt_defs Let_def)
  with True show ?thesis by (intro report) simp_all
qed

lemma reportSpeed_frame:
  assumes "reportSpeed s = Inr s'"
  shows "coil0TriggerTime s' = coil0TriggerTime s" "coil1TriggerTime s' = coil1TriggerTime s"
    "pulseWidth s' = pulseWidth s" "readyToLaunch s' = readyToLaunch s"
    "coil0Active s' = coil0Active s" "coil1Active s' = coil1Active s"
    "holdOffDelay s' = holdOffDelay s"
    "pin_level p (trace s') = pin_level p (trace s)"
  using assms by (cases rule: reportSpeed_cases; simp add: pin_level_append)+

lemma polled_frame:
  "coil0TriggerTime (polled n s) = coil0TriggerTime s"
  "coil1TriggerTime (polled n s) = coil1TriggerTime s"
  "pulseWidth (polled n s) = pulseWidth s"
  "readyToLaunch (polled n s) = readyToLaunch s"
  "launched (polled n s) = launched s"
  "coil0Active (polled n s) = coil0Active s"
  "coil1Active (polled n s) = coil1Active s"
  "holdOffDelay (polled n s) = holdOffDelay s"
  by (simp_all add: polled_eq)

lemma rearm_cases:
  assumes "rearm inp s = Some s'"
  obtains (idle) "\<not> millis_rearm inp - coil0TriggerTime s > REARM_DELAY" "s' = s"
  | (held) reads where "millis_rearm inp - coil0TriggerTime s > REARM_DELAY"
      "checkSwitch_reads (switch_rearm inp) = Some (False, reads)" "s' = polled reads s"
  | (armed) reads where "millis_rearm inp - coil0TriggerTime s > REARM_DELAY"
      "checkSwitch_reads (switch_rearm inp) = Some (True, reads)"
      "s' = (if \<not> coil0Active s \<and> \<not> coil1Active s
             then turnLED GREEN ((polled reads s)\<lparr>readyToLaunch := True\<rparr>)
             else (polled reads s)\<lparr>readyToLaunch := True\<rparr>)"
proof (cases "millis_rearm inp - coil0TriggerTime s > REARM_DELAY")
  case False
  with assms have "s' = s" by (simp add: rearm_def)
  with False show ?thesis by (rule idle)
next
  case True
  show ?thesis
  proof (cases "checkSwitch_reads (switch_rearm inp)")
    case None
    with True assms show ?thesis by (simp add: rearm_def)
  next
    case (Some y)
    obtain level reads where y: "y = (level, reads)" by (cases y)
    show ?thesis
    proof (cases level)
      case False
      with True Some y assms have "s' = polled reads s" by (simp add: rearm_def)
      with True Some y False show ?thesis by (intro held) simp_all
    next
      case lv: True
      with True Some y assms have "s' = (if \<not> coil0Active s \<and> \<not> coil1Active s
             then turnLED GREEN ((polled reads s)\<lparr>readyToLaunch := True\<rparr>)
             else (polled reads s)\<lparr>readyToLaunch := True\<rparr>)"
        by (simp add: rearm_def Let_def polled_frame)
      with True Some y lv show ?thesis by (intro armed) simp_all
    qed
  qed
qed

lemma turnLED_frame:
  "coil0TriggerTime (turnLED c s) = coil0TriggerTime s"
  "coil1TriggerTime (turnLED c s) = coil1TriggerTime s"
  "pulseWidth (turnLED c s) = pulseWidth s"
  "readyToLaunch (turnLED c s) = readyToLaunch s"
  "launched (turnLED c s) = launched s"
  "coil0Active (turnLED c s) = coil0Active s"
  "coil1Active (turnLED c s) = coil1Active s"
  "holdOffDelay (turnLED c s) = holdOffDelay s"
  by (simp_all add: turnLED_def stmt_defs)

lemma rearm_frame:
  assumes "rearm inp s = Some s'"
  shows "coil0TriggerTime s' = coil0TriggerTime s" "coil1TriggerTime s' = coil1TriggerTime s"
    "pulseWidth s' = pulseWidth s" "coil0Active s' = coil0Active s"
    "coil1Active s' = coil1Active s" "launched s' = launched s"
    "holdOffDelay s' = holdOffDelay s"
  using assms by (cases rule: rearm_cases; simp add: polled_frame turnLED_frame)+

lemma rearm_ready:
  assumes "rearm inp s = Some s'" "\<not> readyToLaunch s" "readyToLaunch s'"
  shows "millis_rearm inp - coil0TriggerTime s > REARM_DELAY \<and>
         checkSwitch (switch_rearm inp) = Some True"
  using assms(1)
proof (cases rule: rearm_cases)
  case idle
  with assms(2,3) show ?thesis by simp
next
  case (held reads)
  with assms(2,3) show ?thesis by (simp add: polled_frame)
next
  case (armed reads)
  then show ?thesis by (simp add: checkSwitch_def)
qed

lemma fireCoil0_ready:
  assumes "fireCoil0 inp s = Some s'" "readyToLaunch s'"
  shows "readyToLaunch s"
  using assms
  by (auto simp: fireCoil0_def polled_eq stmt_defs Let_def split: if_splits option.splits)

lemma fireCoil0_skip:
  assumes "coil0Active s \<or> coil1Active s"
  shows "fireCoil0 inp s = Some s"
  using assms by (auto simp: fireCoil0_def)

lemma fireCoil1_skip:
  assumes "hall1_coil1 inp \<or> coil1Active s \<or> \<not> launched s"
  shows "fireCoil1 inp s = s"
  using assms by (auto simp: fireCoil1_def)

lemma tail_ready:
  "readyToLaunch (coil1Off inp (coil0Off inp (fireCoil1 inp s))) = readyToLaunch s"
  by (simp add: block_defs stmt_defs)

lemma coil0Off_done:
  "\<not> (coil0Active (coil0Off inp s) \<and>
       millis_off0 inp - coil0TriggerTime (coil0Off inp s) > pulseWidth (coil0Off inp s))"
  by (simp add: coil0Off_def stmt_defs)

lemma coil1Off_done:
  "\<not> (coil1Active (coil1Off inp s) \<and>
       millis_off1 inp - coil1TriggerTime (coil1Off inp s) > pulseWidth (coil1Off inp s))"
  by (simp add: coil1Off_def stmt_defs)

lemma coil1Off_frame:
  "coil0Active (coil1Off inp s) = coil0Active s"
  "coil0TriggerTime (coil1Off inp s) = coil0TriggerTime s"
  "pulseWidth (coil1Off inp s) = pulseWidth s"
  by (simp_all add: coil1Off_def stmt_defs)

lemma loop_expired:
  assumes "loop inp s = Some (Inr s')"
  shows "\<not> (coil0Active s' \<and> millis_off0 inp - coil0TriggerTime s' > pulseWidth s')"
    and "\<not> (coil1Active s' \<and> millis_off1 inp - coil1TriggerTime s' > pulseWidth s')"
proof -
  from assms obtain s8 where e: "s' = coil1Off inp (coil0Off inp (fireCoil1 inp s8))"
    by (rule loop_Some_blocks)
  show "\<not> (coil0Active s' \<and> millis_off0 inp - coil0TriggerTime s' > pulseWidth s')"
    unfolding e coil1Off_frame by (rule coil0Off_done)
  show "\<not> (coil1Active s' \<and> millis_off1 inp - coil1TriggerTime s' > pulseWidth s')"
    unfolding e by (rule coil1Off_done)
qed

lemma loop_expired_lines:
  assumes "reachable s" "loop inp s = Some (Inr s')"
  shows "millis_off0 inp - coil0TriggerTime s' > pulseWidth s' \<Longrightarrow>
           \<not> coil0Active s' \<and> \<not> pin_level TRIGGER0 (trace s')"
    and "millis_off1 inp - coil1TriggerTime s' > pulseWidth s' \<Longrightarrow>
           \<not> coil1Active s' \<and> \<not> pin_level TRIGGER1 (trace s')"
proof -
  from assms have "reachable s'" by (rule reachable.step)
  then have inv: "coil_inv s'" by (rule reachable_coil_inv)
  {
    assume "millis_off0 inp - coil0TriggerTime s' > pulseWidth s'"
    with loop_expired(1)[OF assms(2)] have "\<not> coil0Active s'" by blast
    with inv show "\<not> coil0Active s' \<and> \<not> pin_level TRIGGER0 (trace s')"
      by (auto simp: coil_inv_def)
  }
  {
    assume "millis_off1 inp - coil1TriggerTime s' > pulseWidth s'"
    with loop_expired(2)[OF assms(2)] have "\<not> coil1Active s'" by blast
    with inv show "\<not> coil1Active s' \<and> \<not> pin_level TRIGGER1 (trace s')"
      by (auto simp: coil_inv_def)
  }
qed

lemma loop_keeps_coil0:
  assumes "loop inp s = Some (Inr s')" "coil0Active s" "hall1_coil1 inp"
    "\<not> (launched s \<and> millis_failsafe inp - coil0TriggerTime s > FAIL_SAFE_LIMIT)"
    "\<not> millis_off0 inp - coil0TriggerTime s > pulseWidth s"
  shows "coil0Active s' \<and> coil0TriggerTime s' = coil0TriggerTime s"
proof -
  from assms(1) obtain s6 s7 s8 where
    r: "reportSpeed (sense inp s) = Inr s6" and a: "rearm inp s6 = Some s7"
    and f: "fireCoil0 inp s7 = Some s8"
    and e: "s' = coil1Off inp (coil0Off inp (fireCoil1 inp s8))"
    by (rule loop_Some_blocks)
  have 6: "coil0Active s6" "coil0TriggerTime s6 = coil0TriggerTime s" "pulseWidth s6 = pulseWidth s"
    using reportSpeed_frame[OF r] sense_frame[of inp s] sense_coils[OF assms(4)] assms(2)
    by simp_all
  have 7: "coil0Active s7" "coil0TriggerTime s7 = coil0TriggerTime s" "pulseWidth s7 = pulseWidth s"
    using rearm_frame[OF a] 6 by simp_all
  from 7(1) f have "s8 = s7" by (simp add: fireCoil0_skip)
  with assms(3) have "fireCoil1 inp s8 = s7" by (simp add: fireCoil1_skip)
  with e have "s' = coil1Off inp (coil0Off inp s7)" by simp
  moreover have "coil0Off inp s7 = s7" using 7 assms(5) by (simp add: coil0Off_def)
  ultimately show ?thesis using 7 by (simp add: coil1Off_frame)
qed

lemma loop_keeps_coil1:
  assumes "loop inp s = Some (Inr s')" "coil1Active s"
    "\<not> (launched s \<and> millis_failsafe inp - coil0TriggerTime s > FAIL_SAFE_LIMIT)"
    "\<not> millis_off1 inp - coil1TriggerTime s > pulseWidth s"
  shows "coil1Active s' \<and> coil1TriggerTime s' = coil1TriggerTime s"
proof -
  from assms(1) obtain s6 s7 s8 where
    r: "reportSpeed (sense inp s) = Inr s6" and a: "rearm inp s6 = Some s7"
    and f: "fireCoil0 inp s7 = Some s8"
    and e: "s' = coil1Off inp (coil0Off inp (fireCoil1 inp s8))"
    by (rule loop_Some_blocks)
  have 6: "coil1Active s6" "coil1TriggerTime s6 = coil1TriggerTime s" "pulseWidth s6 = pulseWidth s"
    using reportSpeed_frame[OF r] sense_frame[of inp s] sense_coils[OF assms(3)] assms(2)
    by simp_all
  have 7: "coil1Active s7" "coil1TriggerTime s7 = coil1TriggerTime s" "pulseWidth s7 = pulseWidth s"
    using rearm_frame[OF a] 6 by simp_all
  from 7(1) f have "s8 = s7" by (simp add: fireCoil0_skip)
  with 7(1) have "fireCoil1 inp s8 = s7" by (simp add: fireCoil1_skip)
  with e have e': "s' = coil1Off inp (coil0Off inp s7)" by simp
  have "coil1Active (coil0Off inp s7)" "coil1TriggerTime (coil0Off inp s7) = coil1TriggerTime s"
    "pulseWidth (coil0Off inp s7) = pulseWidth s"
    using 7 by (simp_all add: coil0Off_def stmt_defs)
  then show ?thesis unfolding e' using assms(4) by (simp add: coil1Off_def)
qed

lemma loop_ready:
  assumes "loop inp s = Some (Inr s')" "\<not> readyToLaunch s" "readyToLaunch s'"
  shows "millis_rearm inp - coil0TriggerTime s > REARM_DELAY \<and>
         checkSwitch (switch_rearm inp) = Some True"
proof -
  from assms(1) obtain s6 s7 s8 where
    r: "reportSpeed (sense inp s) = Inr s6" and a: "rearm inp s6 = Some s7"
    and f: "fireCoil0 inp s7 = Some s8"
    and e: "s' = coil1Off inp (coil0Off inp (fireCoil1 inp s8))"
    by (rule loop_Some_blocks)
  from assms(3) e have "readyToLaunch s8" by (simp add: tail_ready)
  with f have 7: "readyToLaunch s7" by (rule fireCoil0_ready)
  have 6: "\<not> readyToLaunch s6" "coil0TriggerTime s6 = coil0TriggerTime s"
    using reportSpeed_frame[OF r] sense_frame[of inp s] assms(2) by simp_all
  from rearm_ready[OF a 6(1) 7] 6(2) show ?thesis by simp
qed

subsection \<open>Runs from power-on\<close>

lemma loops_append:
  "loops (xs @ ys) s = (case loops xs s of Some (Inr s') \<Rightarrow> loops ys s' | r \<Rightarrow> r)"
  by (induction xs arbitrary: s) (auto split: option.splits sum.splits)

lemma observed_SomeD:
  assumes "observed f r = Some v"
  obtains s where "r = Some (Inr s)" "f s = v"
  using assms by (auto simp: observed_def split: option.splits sum.splits)

lemma observed_after:
  assumes "observed f (loops inps s) = Some v"
  shows "f (after inps s) = v"
  using assms by (auto simp: observed_def after_def split: option.splits sum.splits)

lemma loop_after:
  assumes "observed f (loops (inps @ [inp]) s) = Some v"
  shows "loop inp (after inps s) = Some (Inr (after (inps @ [inp]) s))"
proof -
  from assms obtain s' where s': "loops (inps @ [inp]) s = Some (Inr s')"
    by (rule observed_SomeD)
  then obtain s1 where s1: "loops inps s = Some (Inr s1)" and l: "loops [inp] s1 = Some (Inr s')"
    by (auto simp: loops_append split: option.splits sum.splits)
  from l have "loop inp s1 = Some (Inr s')" by (auto split: option.splits sum.splits)
  with s1 s' show ?thesis by (simp add: after_def)
qed

subsection \<open>Time on the clock\<close>

lemma unat_add_le_sum: "unat (x + y) \<le> unat x + unat y" for x y :: ulong
  by (simp add: unat_word_ariths)

lemma advance_chain: "advance a c \<le> advance a b + advance b c"
proof -
  have e: "c - a = (b - a) + (c - b)" by simp
  show ?thesis unfolding advance_def by (subst e) (rule unat_add_le_sum)
qed

lemma advance_gt: "b - a > k \<longleftrightarrow> unat k < advance a b"
  by (simp add: advance_def word_less_nat_alt)

lemma advance_REARM: "b - a > REARM_DELAY \<longleftrightarrow> 5000 < advance a b"
  by (simp add: advance_gt REARM_DELAY_def)

lemma advance_FAIL_SAFE: "b - a > FAIL_SAFE_LIMIT \<longleftrightarrow> 1000 < advance a b"
  by (simp add: advance_gt FAIL_SAFE_LIMIT_def)

lemma advance_to_rearm:
  assumes "steady_clock g prev inp s"
  shows "advance x (millis_rearm inp) \<le> advance x prev + 4 * g"
    and "advance x (millis_rearm inp) \<le> advance x (millis_failsafe inp) + 3 * g"
proof -
  from assms have a: "advance prev (millis_failsafe inp) \<le> g"
    "advance (millis_failsafe inp) (millis_hall1 inp) \<le> g"
    "advance (millis_hall1 inp) (millis_hall2 inp) \<le> g"
    "advance (millis_hall2 inp) (millis_rearm inp) \<le> g"
    by (simp_all add: steady_clock_def)
  have 1: "advance x (millis_failsafe inp) \<le> advance x prev + advance prev (millis_failsafe inp)"
    by (rule advance_chain)
  have 2: "advance x (millis_hall1 inp) \<le>
      advance x (millis_failsafe inp) + advance (millis_failsafe inp) (millis_hall1 inp)"
    by (rule advance_chain)
  have 3: "advance x (millis_hall2 inp) \<le>
      advance x (millis_hall1 inp) + advance (millis_hall1 inp) (millis_hall2 inp)"
    by (rule advance_chain)
  have 4: "advance x (millis_rearm inp) \<le>
      advance x (millis_hall2 inp) + advance (millis_hall2 inp) (millis_rearm inp)"
    by (rule advance_chain)
  from a 1 2 3 4 show "advance x (millis_rearm inp) \<le> advance x prev + 4 * g" by linarith
  from a 2 3 4 show "advance x (millis_rearm inp) \<le> advance x (millis_failsafe inp) + 3 * g"
    by linarith
qed

text \<open>With a steady clock the cooldown test fails while a coil is on or a launch under way.\<close>

lemma cooldown_not_over:
  assumes g: "g \<le> 400" and inv: "timing_inv g s prev" and st: "steady_clock g prev inp s"
    and c: "coil0Active s \<or> coil1Active s \<or>
            (launched s \<and> \<not> millis_failsafe inp - coil0TriggerTime s > FAIL_SAFE_LIMIT)"
  shows "\<not> millis_rearm inp - coil0TriggerTime s > REARM_DELAY"
proof -
  let ?T0 = "coil0TriggerTime s"
  have "advance ?T0 (millis_rearm inp) \<le> 5000"
  proof -
    consider "coil0Active s" | "coil1Active s"
      | "launched s \<and> \<not> millis_failsafe inp - coil0TriggerTime s > FAIL_SAFE_LIMIT"
      using c by blast
    then show ?thesis
    proof cases
      case 1
      with inv have "advance ?T0 prev \<le> 30 + g" by (simp add: timing_inv_def)
      with advance_to_rearm(1)[OF st, of ?T0] g show ?thesis by linarith
    next
      case 2
      with inv have a: "advance (coil1TriggerTime s) prev \<le> 30"
        "advance ?T0 (coil1TriggerTime s) \<le> 1102 + 5 * g" by (simp_all add: timing_inv_def)
      have "advance ?T0 prev \<le> advance ?T0 (coil1TriggerTime s) + advance (coil1TriggerTime s) prev"
        by (rule advance_chain)
      with a advance_to_rearm(1)[OF st, of ?T0] g show ?thesis by linarith
    next
      case 3
      then have "advance ?T0 (millis_failsafe inp) \<le> 1000" by (simp add: advance_FAIL_SAFE)
      with advance_to_rearm(2)[OF st, of ?T0] g show ?thesis by linarith
    qed
  qed
  then show ?thesis by (simp add: advance_REARM)
qed

subsection \<open>readyToLaunch and the coils\<close>

lemma ready_inv_readHoldOff: "ready_inv (readHoldOff inp s) = ready_inv s"
  by (simp add: ready_inv_def readHoldOff_def)

lemma ready_inv_failSafe: "ready_inv s \<Longrightarrow> ready_inv (failSafe inp s)"
  by (simp add: ready_inv_def failSafe_def stmt_defs)

lemma ready_inv_turnLED: "ready_inv (turnLED c s) = ready_inv s"
  by (simp add: ready_inv_def turnLED_frame)

lemma ready_inv_indicator: "ready_inv (indicator s) = ready_inv s"
  by (simp add: indicator_def ready_inv_turnLED)

lemma ready_inv_checkHall1: "ready_inv (checkHall1 inp s) = ready_inv s"
  by (simp add: ready_inv_def checkHall1_def stmt_defs)

lemma ready_inv_checkHall2: "ready_inv (checkHall2 inp s) = ready_inv s"
  by (simp add: ready_inv_def checkHall2_def stmt_defs)

lemma ready_inv_reportSpeed: "ready_inv s \<Longrightarrow> reportSpeed s = Inr s' \<Longrightarrow> ready_inv s'"
  by (erule reportSpeed_cases) (simp_all add: ready_inv_def)

lemma fireCoil0_cases:
  assumes "fireCoil0 inp s = Some s'"
  obtains (skip) "s' = s"
  | (released) reads where "s' = polled reads s"
  | (fire) reads where "readyToLaunch s" "\<not> coil0Active s" "\<not> coil1Active s"
      "s' = (polled reads s)\<lparr>readyToLaunch := False, launched := True, coil0Active := True,
               coil0TriggerTime := millis_coil0 inp,
               trace := trace (polled reads s) @
                 [SerialText ''Coil0 Fired: 0ms'', SerialEOL, DigitalWrite TRIGGER0 True]\<rparr>"
proof (cases "readyToLaunch s \<and> \<not> coil0Active s \<and> \<not> coil1Active s \<and>
         hall1_fire inp \<and> hall2_fire inp")
  case False
  with assms have "s' = s" by (auto simp: fireCoil0_def)
  then show ?thesis by (rule skip)
next
  case True
  show ?thesis
  proof (cases "checkSwitch_reads (switch_fire inp)")
    case None
    with True assms show ?thesis by (simp add: fireCoil0_def)
  next
    case (Some y)
    obtain level reads where y: "y = (level, reads)" by (cases y)
    show ?thesis
    proof (cases level)
      case lv: True
      with True Some y assms have "s' = polled reads s" by (simp add: fireCoil0_def)
      then show ?thesis by (rule released)
    next
      case lv: False
      with True Some y assms have "s' = (polled reads s)\<lparr>readyToLaunch := False, launched := True,
               coil0Active := True, coil0TriggerTime := millis_coil0 inp,
               trace := trace (polled reads s) @
                 [SerialText ''Coil0 Fired: 0ms'', SerialEOL, DigitalWrite TRIGGER0 True]\<rparr>"
        by (auto simp: fireCoil0_def stmt_defs Let_def)
      with True show ?thesis by (intro fire) simp_all
    qed
  qed
qed

lemma ready_inv_polled: "ready_inv (polled n s) = ready_inv s"
  by (simp add: ready_inv_def polled_frame)

lemma ready_inv_fireCoil0: "ready_inv s \<Longrightarrow> fireCoil0 inp s = Some s' \<Longrightarrow> ready_inv s'"
  by (erule fireCoil0_cases) (simp_all add: ready_inv_polled, simp add: ready_inv_def)

lemma ready_inv_before_delay:
  "ready_inv s \<Longrightarrow> launched s \<Longrightarrow> ready_inv (exec coil1_before_delay s)"
  by (simp add: ready_inv_def coil1_before_delay_def stmt_defs)

lemma ready_inv_fireCoil1: "ready_inv s \<Longrightarrow> ready_inv (fireCoil1 inp s)"
  by (auto simp: ready_inv_def fireCoil1_def coil1_before_delay_def coil1_from_delay_def stmt_defs)

lemma ready_inv_coil0Off: "ready_inv s \<Longrightarrow> ready_inv (coil0Off inp s)"
  by (simp add: ready_inv_def coil0Off_def stmt_defs)

lemma ready_inv_coil1Off: "ready_inv s \<Longrightarrow> ready_inv (coil1Off inp s)"
  by (simp add: ready_inv_def coil1Off_def stmt_defs)

text \<open>The state in which a run of \<open>loop()\<close> comes to its rearm.\<close>

lemma before_rearm:
  assumes "reportSpeed (sense inp s) = Inr s6"
  shows "coil0TriggerTime s6 = coil0TriggerTime s" "coil1TriggerTime s6 = coil1TriggerTime s"
    "pulseWidth s6 = pulseWidth s" "readyToLaunch s6 = readyToLaunch s"
    "coil0Active s6 \<Longrightarrow> coil0Active s" "coil1Active s6 \<Longrightarrow> coil1Active s"
    "launched s6 \<Longrightarrow>
       launched s \<and> \<not> millis_failsafe inp - coil0TriggerTime s > FAIL_SAFE_LIMIT"
proof -
  note f = reportSpeed_frame[OF assms] sense_frame[of inp s]
  from f show "coil0TriggerTime s6 = coil0TriggerTime s" "coil1TriggerTime s6 = coil1TriggerTime s"
    "pulseWidth s6 = pulseWidth s" "readyToLaunch s6 = readyToLaunch s" by simp_all
  have c: "coil0Active (sense inp s) \<longrightarrow> coil0Active s"
    "coil1Active (sense inp s) \<longrightarrow> coil1Active s"
    "launched (sense inp s) \<longrightarrow>
       launched s \<and> \<not> millis_failsafe inp - coil0TriggerTime s > FAIL_SAFE_LIMIT"
    by (auto simp: block_defs stmt_defs)
  { assume "coil0Active s6" with f c show "coil0Active s" by simp }
  { assume "coil1Active s6" with f c show "coil1Active s" by simp }
  { assume l: "launched s6"
    from assms have "launched s6 \<longrightarrow> launched (sense inp s)"
      by (cases rule: reportSpeed_cases) simp_all
    with l c show "launched s \<and> \<not> millis_failsafe inp - coil0TriggerTime s > FAIL_SAFE_LIMIT"
      by blast }
qed

lemma ready_inv_rearm:
  assumes g: "g \<le> 400" and inv: "timing_inv g s prev" and st: "steady_clock g prev inp s"
    and r: "reportSpeed (sense inp s) = Inr s6" and a: "rearm inp s6 = Some s7"
  shows "ready_inv s7"
proof -
  from inv have "ready_inv s" by (simp add: timing_inv_def)
  then have "ready_inv (sense inp s)"
    by (simp add: sense_def ready_inv_checkHall2 ready_inv_checkHall1 ready_inv_indicator
        ready_inv_failSafe ready_inv_readHoldOff)
  then have 6: "ready_inv s6" using r by (rule ready_inv_reportSpeed)
  note b = before_rearm[OF r]
  from a show ?thesis
  proof (cases rule: rearm_cases)
    case idle
    with 6 show ?thesis by simp
  next
    case (held reads)
    with 6 show ?thesis by (simp add: ready_inv_polled)
  next
    case (armed reads)
    then have over: "millis_rearm inp - coil0TriggerTime s > REARM_DELAY" by (simp add: b)
    have "\<not> (coil0Active s \<or> coil1Active s \<or>
            (launched s \<and> \<not> millis_failsafe inp - coil0TriggerTime s > FAIL_SAFE_LIMIT))"
      using cooldown_not_over[OF g inv st] over by blast
    with b(5,6,7) have quiet: "\<not> coil0Active s6" "\<not> coil1Active s6" "\<not> launched s6" by blast+
    have "ready_inv ((polled reads s6)\<lparr>readyToLaunch := True\<rparr>)"
      using quiet by (simp add: ready_inv_def polled_frame)
    with armed(3) show ?thesis by (simp add: ready_inv_turnLED)
  qed
qed

lemma ready_inv_stages:
  assumes g: "g \<le> 400" and inv: "timing_inv g s prev" and st: "steady_clock g prev inp s"
  shows "\<forall>x \<in> set (stages inp s). ready_inv x"
proof -
  let ?s1 = "readHoldOff inp s"
  let ?s2 = "failSafe inp ?s1"
  let ?s3 = "indicator ?s2"
  let ?s4 = "checkHall1 inp ?s3"
  let ?s5 = "checkHall2 inp ?s4"
  from inv have 0: "ready_inv s" by (simp add: timing_inv_def)
  then have 1: "ready_inv ?s1" by (simp add: ready_inv_readHoldOff)
  then have 2: "ready_inv ?s2" by (rule ready_inv_failSafe)
  then have 3: "ready_inv ?s3" by (simp add: ready_inv_indicator)
  then have 4: "ready_inv ?s4" by (simp add: ready_inv_checkHall1)
  then have 5: "ready_inv ?s5" by (simp add: ready_inv_checkHall2)
  have s5: "?s5 = sense inp s" by (simp add: sense_def)
  have rest: "\<forall>x \<in> set (case reportSpeed ?s5 of
            Inl e \<Rightarrow> []
          | Inr s6 \<Rightarrow> s6 #
              (case rearm inp s6 of
                 None \<Rightarrow> []
               | Some s7 \<Rightarrow> s7 #
                   (case fireCoil0 inp s7 of
                      None \<Rightarrow> []
                    | Some s8 \<Rightarrow>
                        [s8,
                         if launched s8 \<and> \<not> coil1Active s8 \<and> \<not> hall1_coil1 inp
                         then exec coil1_before_delay s8 else s8,
                         fireCoil1 inp s8,
                         coil0Off inp (fireCoil1 inp s8),
                         coil1Off inp (coil0Off inp (fireCoil1 inp s8))]))). ready_inv x"
  proof (cases "reportSpeed ?s5")
    case (Inl e)
    then show ?thesis by simp
  next
    case (Inr s6)
    with 5 have 6: "ready_inv s6" by (rule ready_inv_reportSpeed)
    from Inr have r: "reportSpeed (sense inp s) = Inr s6" by (simp only: s5)
    show ?thesis
    proof (cases "rearm inp s6")
      case None
      with Inr 6 show ?thesis by simp
    next
      case (Some s7)
      have 7: "ready_inv s7" by (rule ready_inv_rearm[OF g inv st r Some])
      show ?thesis
      proof (cases "fireCoil0 inp s7")
        case None
        with Inr Some 6 7 show ?thesis by simp
      next
        case f: (Some s8)
        with 7 have 8: "ready_inv s8" by (rule ready_inv_fireCoil0)
        from 8 have 9: "launched s8 \<longrightarrow> ready_inv (exec coil1_before_delay s8)"
          by (simp add: ready_inv_before_delay)
        from 8 have 10: "ready_inv (fireCoil1 inp s8)" by (rule ready_inv_fireCoil1)
        then have 11: "ready_inv (coil0Off inp (fireCoil1 inp s8))" by (rule ready_inv_coil0Off)
        then have 12: "ready_inv (coil1Off inp (coil0Off inp (fireCoil1 inp s8)))"
          by (rule ready_inv_coil1Off)
        from Inr Some f 6 7 8 9 10 11 12 show ?thesis by simp
      qed
    qed
  qed
  from 1 2 3 4 5 rest show ?thesis
    unfolding stages_def Let_def by simp
qed

subsection \<open>The timing of the coils\<close>

lemma tail_frame:
  "coil0TriggerTime (coil1Off inp (coil0Off inp s)) = coil0TriggerTime s"
  "coil1TriggerTime (coil1Off inp (coil0Off inp s)) = coil1TriggerTime s"
  "pulseWidth (coil1Off inp (coil0Off inp s)) = pulseWidth s"
  "coil1Active (coil1Off inp (coil0Off inp s)) \<Longrightarrow> coil1Active s"
  by (auto simp: coil0Off_def coil1Off_def stmt_defs split: if_splits)

lemma fireCoil1_frame:
  "coil0TriggerTime (fireCoil1 inp s) = coil0TriggerTime s"
  "pulseWidth (fireCoil1 inp s) = pulseWidth s"
  by (simp_all add: fireCoil1_def coil1_before_delay_def coil1_from_delay_def stmt_defs)

lemma fireCoil1_fired:
  assumes "launched s \<and> \<not> coil1Active s \<and> \<not> hall1_coil1 inp"
  shows "coil1TriggerTime (fireCoil1 inp s) = millis_coil1 inp"
  using assms
  by (simp add: fireCoil1_def coil1_before_delay_def coil1_from_delay_def stmt_defs)

lemma fireCoil0_frame:
  assumes "fireCoil0 inp s = Some s'"
  shows "pulseWidth s' = pulseWidth s" "coil1TriggerTime s' = coil1TriggerTime s"
    "coil1Active s' = coil1Active s"
  using assms by (cases rule: fireCoil0_cases; simp add: polled_frame)+

text \<open>Coil1 is fired at most 1102 + 5 g ms after coil0.\<close>

lemma coil1_after_coil0:
  assumes g: "g \<le> 400" and inv: "timing_inv g s prev" and st: "steady_clock g prev inp s"
    and r: "reportSpeed (sense inp s) = Inr s6" and a: "rearm inp s6 = Some s7"
    and f: "fireCoil0 inp s7 = Some s8" and l: "launched s8"
  shows "advance (coil0TriggerTime s8) (millis_coil1 inp) \<le> 1102 + 5 * g"
proof -
  from st have d: "advance (millis_coil0 inp) (millis_coil1 inp) \<le> g + 102"
    by (simp add: steady_clock_def)
  note b = before_rearm[OF r]
  note ra = rearm_frame[OF a]
  have started_before: "launched s7 \<Longrightarrow> coil0TriggerTime s7 = coil0TriggerTime s \<Longrightarrow>
    advance (coil0TriggerTime s) (millis_coil1 inp) \<le> 1102 + 5 * g"
  proof -
    assume "launched s7"
    with ra have "launched s6" by simp
    with b(7) have ls: "launched s"
      and nf: "\<not> millis_failsafe inp - coil0TriggerTime s > FAIL_SAFE_LIMIT" by blast+
    from inv ls have nr: "\<not> readyToLaunch s" by (auto simp: timing_inv_def ready_inv_def)
    from ls nf have nc: "\<not> millis_rearm inp - coil0TriggerTime s > REARM_DELAY"
      by (intro cooldown_not_over[OF g inv st]) blast
    from st nr nc have e: "advance (millis_rearm inp) (millis_coil0 inp) \<le> g"
      by (simp add: steady_clock_def)
    from nf have t: "advance (coil0TriggerTime s) (millis_failsafe inp) \<le> 1000"
      by (simp add: advance_FAIL_SAFE)
    have 1: "advance (coil0TriggerTime s) (millis_coil0 inp) \<le>
        advance (coil0TriggerTime s) (millis_rearm inp) + advance (millis_rearm inp) (millis_coil0 inp)"
      by (rule advance_chain)
    have 2: "advance (coil0TriggerTime s) (millis_coil1 inp) \<le>
        advance (coil0TriggerTime s) (millis_coil0 inp) + advance (millis_coil0 inp) (millis_coil1 inp)"
      by (rule advance_chain)
    from advance_to_rearm(2)[OF st, of "coil0TriggerTime s"] t e d 1 2
    show "advance (coil0TriggerTime s) (millis_coil1 inp) \<le> 1102 + 5 * g" by linarith
  qed
  from f show ?thesis
  proof (cases rule: fireCoil0_cases)
    case skip
    with l started_before ra b show ?thesis by simp
  next
    case (released reads)
    with l started_before ra b show ?thesis by (simp add: polled_frame)
  next
    case (fire reads)
    then have "coil0TriggerTime s8 = millis_coil0 inp" by simp
    with d show ?thesis by simp
  qed
qed

lemma timing_inv_loop:
  assumes g: "g \<le> 400" and inv: "timing_inv g s prev" and st: "steady_clock g prev inp s"
    and l: "loop inp s = Some (Inr s')"
  shows "timing_inv g s' (millis_off1 inp)"
proof -
  from l obtain s6 s7 s8 where
    r: "reportSpeed (sense inp s) = Inr s6" and a: "rearm inp s6 = Some s7"
    and f: "fireCoil0 inp s7 = Some s8"
    and e: "s' = coil1Off inp (coil0Off inp (fireCoil1 inp s8))"
    by (rule loop_Some_blocks)
  note b = before_rearm[OF r]
  note ra = rearm_frame[OF a]
  note fa = fireCoil0_frame[OF f]
  from inv have pw0: "pulseWidth s = 30" by (simp add: timing_inv_def)
  have pw: "pulseWidth s' = 30"
    unfolding e by (simp add: tail_frame fireCoil1_frame fa ra b pw0)
  have ne: "stages inp s \<noteq> []" by (simp add: stages_def Let_def)
  from last_in_set[OF ne] stages_end[OF l] have "s' \<in> set (stages inp s)" by simp
  with ready_inv_stages[OF g inv st] have ri: "ready_inv s'" by blast
  from st have o: "advance (millis_off0 inp) (millis_off1 inp) \<le> g"
    by (simp add: steady_clock_def)
  have c0: "coil0Active s' \<longrightarrow> advance (coil0TriggerTime s') (millis_off1 inp) \<le> 30 + g"
  proof
    assume "coil0Active s'"
    with loop_expired(1)[OF l] pw have "\<not> millis_off0 inp - coil0TriggerTime s' > 30" by simp
    then have "advance (coil0TriggerTime s') (millis_off0 inp) \<le> 30" by (simp add: advance_gt)
    with o advance_chain[of "coil0TriggerTime s'" "millis_off1 inp" "millis_off0 inp"]
    show "advance (coil0TriggerTime s') (millis_off1 inp) \<le> 30 + g" by linarith
  qed
  have c1: "coil1Active s' \<longrightarrow>
        advance (coil1TriggerTime s') (millis_off1 inp) \<le> 30 \<and>
        advance (coil0TriggerTime s') (coil1TriggerTime s') \<le> 1102 + 5 * g"
  proof
    assume c: "coil1Active s'"
    with loop_expired(2)[OF l] pw have "\<not> millis_off1 inp - coil1TriggerTime s' > 30" by simp
    then have 1: "advance (coil1TriggerTime s') (millis_off1 inp) \<le> 30" by (simp add: advance_gt)
    from c have c9: "coil1Active (fireCoil1 inp s8)" unfolding e by (rule tail_frame(4))
    have T: "coil0TriggerTime s' = coil0TriggerTime s8"
      "coil1TriggerTime s' = coil1TriggerTime (fireCoil1 inp s8)"
      unfolding e by (simp_all add: tail_frame fireCoil1_frame)
    have 2: "advance (coil0TriggerTime s8) (coil1TriggerTime (fireCoil1 inp s8)) \<le> 1102 + 5 * g"
    proof (cases "launched s8 \<and> \<not> coil1Active s8 \<and> \<not> hall1_coil1 inp")
      case True
      then have "launched s8" by simp
      from coil1_after_coil0[OF g inv st r a f this] fireCoil1_fired[OF True]
      show ?thesis by simp
    next
      case False
      then have same: "fireCoil1 inp s8 = s8" by (auto simp: fireCoil1_def)
      with c9 have c8: "coil1Active s8" by simp
      with fa ra have c6: "coil1Active s6" by simp
      then have cs: "coil1Active s" by (rule b(6))
      from c8 fa have "coil1Active s7" by simp
      with f have "s8 = s7" by (simp add: fireCoil0_skip)
      with ra b have "coil0TriggerTime s8 = coil0TriggerTime s"
        "coil1TriggerTime s8 = coil1TriggerTime s" by simp_all
      with inv cs same show ?thesis by (simp add: timing_inv_def)
    qed
    from 1 2 T show "advance (coil1TriggerTime s') (millis_off1 inp) \<le> 30 \<and>
        advance (coil0TriggerTime s') (coil1TriggerTime s') \<le> 1102 + 5 * g" by simp
  qed
  from pw ri c0 c1 show ?thesis by (simp add: timing_inv_def)
qed

lemma timing_inv_power_up: "timing_inv g (setup_sketch (initial t0 t1)) now"
  by (simp add: timing_inv_def ready_inv_def setup_sketch_def initial_def stmt_defs)

lemma reached_timing_inv:
  assumes "reached g s prev" and "g \<le> 400"
  shows "timing_inv g s prev"
  using assms
proof (induction rule: reached.induct)
  case (power_up t0 t1 now)
  show ?case by (rule timing_inv_power_up)
next
  case (run s prev inp s')
  then show ?case by (intro timing_inv_loop[where s = s and prev = prev]) simp_all
qed

lemma reached_reachable: "reached g s prev \<Longrightarrow> reachable s"
  by (induction rule: reached.induct) (auto intro: reachable.intros)

subsection \<open>The rearm\<close>

text \<open>
  The rearm tests the clock and the switch, not the coil flags (the test of line 154
  guards the green indicator only), so what keeps \<open>readyToLaunch\<close> false while a coil is
  on is the time that a pulse takes. With the clock left free, as in \<open>reachable\<close>, a run
  sets \<open>readyToLaunch\<close> while coil0 is on: coil0 is fired at 120 ms, the run after that
  reads both sensors LOW (at 121 and 122 ms) and its speed report clears \<open>launched\<close>,
  and the run after that reads the clock at 5200 ms, 5 s after the readings of the run
  before it, with no blocking call in between. Hence the bound on the clock below.
\<close>

lemma rearm_with_free_clock:
  "observed readyToLaunch (loops [press_at 100, sensors_at 121 122] power_on) = Some False \<and>
   observed coil0Active (loops [press_at 100, sensors_at 121 122] power_on) = Some True \<and>
   observed readyToLaunch
     (rearmed (inputs_at 5200) (after [press_at 100, sensors_at 121 122] power_on)) =
     Some True \<and>
   observed coil0Active
     (rearmed (inputs_at 5200) (after [press_at 100, sensors_at 121 122] power_on)) =
     Some True"
  by (simp add: run_simps after_def rearmed_def sensors_at_def
      cong: option.case_cong_weak sum.case_cong_weak)

text \<open>
  C3. \<open>readyToLaunch\<close> goes from false to true, in the rearm block and across a whole
  run of \<open>loop()\<close>, only when (a) the clock read by the rearm test is more than
  \<open>REARM_DELAY\<close> past \<open>coil0TriggerTime\<close> and (b) the debounced switch reads released.
  And \<open>readyToLaunch\<close> is never true while a coil is active: when every stretch of code
  without a blocking call takes at most \<open>g\<close> ms, for a \<open>g\<close> of up to 400, then in every
  state that the sketch reaches between two runs of \<open>loop()\<close>, and in the state after
  each block of the next run, \<open>readyToLaunch\<close> implies that \<open>coil0Active\<close> and
  \<open>coil1Active\<close> are false. (At the rearm test an active coil0 was fired at most
  30 + 5 \<open>g\<close> ms ago, an active coil1 at most 1132 + 9 \<open>g\<close> ms after coil0, and a launch
  that the fail-safe lets pass at most 1000 + 3 \<open>g\<close> ms ago: the cooldown of 5000 ms is
  not over.)
\<close>

theorem rearm_gate:
  "(rearm inp s = Some s' \<and> \<not> readyToLaunch s \<and> readyToLaunch s' \<longrightarrow>
      millis_rearm inp - coil0TriggerTime s > REARM_DELAY \<and>
      checkSwitch (switch_rearm inp) = Some True) \<and>
   (loop inp s = Some (Inr s'') \<and> \<not> readyToLaunch s \<and> readyToLaunch s'' \<longrightarrow>
      millis_rearm inp - coil0TriggerTime s > REARM_DELAY \<and>
      checkSwitch (switch_rearm inp) = Some True) \<and>
   (g \<le> 400 \<and> reached g s prev \<longrightarrow>
      reachable s \<and>
      (readyToLaunch s \<longrightarrow> \<not> coil0Active s \<and> \<not> coil1Active s) \<and>
      (steady_clock g prev inp s \<longrightarrow>
         (\<forall>x \<in> set (stages inp s). readyToLaunch x \<longrightarrow> \<not> coil0Active x \<and> \<not> coil1Active x)))"
proof -
  have 1: "rearm inp s = Some s' \<and> \<not> readyToLaunch s \<and> readyToLaunch s' \<longrightarrow>
      millis_rearm inp - coil0TriggerTime s > REARM_DELAY \<and>
      checkSwitch (switch_rearm inp) = Some True"
    using rearm_ready by blast
  have 2: "loop inp s = Some (Inr s'') \<and> \<not> readyToLaunch s \<and> readyToLaunch s'' \<longrightarrow>
      millis_rearm inp - coil0TriggerTime s > REARM_DELAY \<and>
      checkSwitch (switch_rearm inp) = Some True"
    using loop_ready by blast
  have 3: "g \<le> 400 \<and> reached g s prev \<longrightarrow>
      reachable s \<and>
      (readyToLaunch s \<longrightarrow> \<not> coil0Active s \<and> \<not> coil1Active s) \<and>
      (steady_clock g prev inp s \<longrightarrow>
         (\<forall>x \<in> set (stages inp s). readyToLaunch x \<longrightarrow> \<not> coil0Active x \<and> \<not> coil1Active x))"
  proof
    assume "g \<le> 400 \<and> reached g s prev"
    then have g: "g \<le> 400" and r: "reached g s prev" by simp_all
    from r g have inv: "timing_inv g s prev" by (rule reached_timing_inv)
    from r have a: "reachable s" by (rule reached_reachable)
    from inv have b: "readyToLaunch s \<longrightarrow> \<not> coil0Active s \<and> \<not> coil1Active s"
      by (simp add: timing_inv_def ready_inv_def)
    have c: "steady_clock g prev inp s \<longrightarrow>
         (\<forall>x \<in> set (stages inp s). readyToLaunch x \<longrightarrow> \<not> coil0Active x \<and> \<not> coil1Active x)"
    proof
      assume "steady_clock g prev inp s"
      from ready_inv_stages[OF g inv this]
      show "\<forall>x \<in> set (stages inp s). readyToLaunch x \<longrightarrow> \<not> coil0Active x \<and> \<not> coil1Active x"
        by (simp add: ready_inv_def)
    qed
    from a b c show "reachable s \<and>
      (readyToLaunch s \<longrightarrow> \<not> coil0Active s \<and> \<not> coil1Active s) \<and>
      (steady_clock g prev inp s \<longrightarrow>
         (\<forall>x \<in> set (stages inp s). readyToLaunch x \<longrightarrow> \<not> coil0Active x \<and> \<not> coil1Active x))"
      by (intro conjI)
  qed
  from 1 2 3 show ?thesis by (intro conjI)
qed

theorem rearm_gate_witness:
  "reached 400 (after [press_at 100, ticking 120 400, ticking 3320 400] power_on) 6520 \<and>
   steady_clock 400 6520 (inputs_at 6520)
     (after [press_at 100, ticking 120 400, ticking 3320 400] power_on) \<and>
   \<not> readyToLaunch (after [press_at 100, ticking 120 400, ticking 3320 400] power_on) \<and>
   readyToLaunch
     (after [press_at 100, ticking 120 400, ticking 3320 400, inputs_at 6520] power_on) \<and>
   millis_rearm (inputs_at 6520) -
     coil0TriggerTime (after [press_at 100, ticking 120 400, ticking 3320 400] power_on)
     > REARM_DELAY \<and>
   checkSwitch (switch_rearm (inputs_at 6520)) = Some True \<and>
   \<not> coil0Active
     (after [press_at 100, ticking 120 400, ticking 3320 400, inputs_at 6520] power_on) \<and>
   \<not> coil1Active
     (after [press_at 100, ticking 120 400, ticking 3320 400, inputs_at 6520] power_on)"
proof -
  let ?s1 = "after [press_at 100] power_on"
  let ?s2 = "after [press_at 100, ticking 120 400] power_on"
  let ?s3 = "after [press_at 100, ticking 120 400, ticking 3320 400] power_on"
  let ?s4 = "after [press_at 100, ticking 120 400, ticking 3320 400, inputs_at 6520] power_on"
  have o1: "observed readyToLaunch (loops ([] @ [press_at 100]) power_on) = Some False"
    by (simp add: run_simps cong: option.case_cong_weak sum.case_cong_weak)
  have o2: "observed readyToLaunch (loops ([press_at 100] @ [ticking 120 400]) power_on) =
      Some False"
    by (simp add: run_simps ticking_def cong: option.case_cong_weak sum.case_cong_weak)
  have o3: "observed readyToLaunch
      (loops ([press_at 100, ticking 120 400] @ [ticking 3320 400]) power_on) = Some False"
    by (simp add: run_simps ticking_def cong: option.case_cong_weak sum.case_cong_weak)
  have o4: "observed readyToLaunch
      (loops ([press_at 100, ticking 120 400, ticking 3320 400] @ [inputs_at 6520]) power_on) =
      Some True"
    by (simp add: run_simps ticking_def cong: option.case_cong_weak sum.case_cong_weak)
  have s0: "after [] power_on = power_on" by (simp add: after_def)
  have l1: "loop (press_at 100) power_on = Some (Inr ?s1)"
    using loop_after[OF o1] by (simp only: s0 append_Nil)
  have l2: "loop (ticking 120 400) ?s1 = Some (Inr ?s2)"
    using loop_after[OF o2] by (simp only: append_Cons append_Nil)
  have l3: "loop (ticking 3320 400) ?s2 = Some (Inr ?s3)"
    using loop_after[OF o3] by (simp only: append_Cons append_Nil)
  have l4: "loop (inputs_at 6520) ?s3 = Some (Inr ?s4)"
    using loop_after[OF o4] by (simp only: append_Cons append_Nil)
  have c1: "steady_clock 400 100 (press_at 100) power_on"
    by (simp add: steady_clock_def advance_def press_at_def inputs_at_def)
  have c2: "steady_clock 400 120 (ticking 120 400) ?s1"
    by (simp add: steady_clock_def advance_def ticking_def inputs_at_def)
  have c3: "steady_clock 400 3320 (ticking 3320 400) ?s2"
    by (simp add: steady_clock_def advance_def ticking_def inputs_at_def)
  have c4: "steady_clock 400 6520 (inputs_at 6520) ?s3"
    by (simp add: steady_clock_def advance_def inputs_at_def)
  have e1: "millis_off1 (press_at 100) = 120" by (simp add: press_at_def inputs_at_def)
  have e2: "millis_off1 (ticking 120 400) = 3320" by (simp add: ticking_def inputs_at_def)
  have e3: "millis_off1 (ticking 3320 400) = 6520" by (simp add: ticking_def inputs_at_def)
  have r0: "reached 400 power_on 100" unfolding power_on_def by (rule reached.power_up)
  from reached.run[OF r0 c1 l1] have r1: "reached 400 ?s1 120" by (simp only: e1)
  from reached.run[OF r1 c2 l2] have r2: "reached 400 ?s2 3320" by (simp only: e2)
  from reached.run[OF r2 c3 l3] have r3: "reached 400 ?s3 6520" by (simp only: e3)
  from observed_after[OF o3] have a: "\<not> readyToLaunch ?s3" by (simp only: append_Cons append_Nil simp_thms)
  from observed_after[OF o4] have b: "readyToLaunch ?s4" by (simp only: append_Cons append_Nil simp_thms)
  from l4 a b have "loop (inputs_at 6520) ?s3 = Some (Inr ?s4) \<and> \<not> readyToLaunch ?s3 \<and>
      readyToLaunch ?s4" by (intro conjI)
  with rearm_gate[of "inputs_at 6520" ?s3 ?s4 ?s4 400 6520, THEN conjunct2, THEN conjunct1]
  have gate: "millis_rearm (inputs_at 6520) - coil0TriggerTime ?s3 > REARM_DELAY \<and>
      checkSwitch (switch_rearm (inputs_at 6520)) = Some True" by (rule mp)
  from r3 have "400 \<le> (400 :: nat) \<and> reached 400 ?s3 6520" by simp
  with rearm_gate[of "inputs_at 6520" ?s3 ?s4 ?s4 400 6520, THEN conjunct2, THEN conjunct2]
  have "reachable ?s3 \<and>
      (readyToLaunch ?s3 \<longrightarrow> \<not> coil0Active ?s3 \<and> \<not> coil1Active ?s3) \<and>
      (steady_clock 400 6520 (inputs_at 6520) ?s3 \<longrightarrow>
         (\<forall>x \<in> set (stages (inputs_at 6520) ?s3).
            readyToLaunch x \<longrightarrow> \<not> coil0Active x \<and> \<not> coil1Active x))" by (rule mp)
  then have "steady_clock 400 6520 (inputs_at 6520) ?s3 \<longrightarrow>
         (\<forall>x \<in> set (stages (inputs_at 6520) ?s3).
            readyToLaunch x \<longrightarrow> \<not> coil0Active x \<and> \<not> coil1Active x)"
    by (elim conjE)
  from this c4 have all: "\<forall>x \<in> set (stages (inputs_at 6520) ?s3).
            readyToLaunch x \<longrightarrow> \<not> coil0Active x \<and> \<not> coil1Active x" by (rule mp)
  have ne: "stages (inputs_at 6520) ?s3 \<noteq> []" by (simp add: stages_def Let_def)
  from last_in_set[OF ne] stages_end[OF l4] have "?s4 \<in> set (stages (inputs_at 6520) ?s3)"
    by simp
  with all have "readyToLaunch ?s4 \<longrightarrow> \<not> coil0Active ?s4 \<and> \<not> coil1Active ?s4" by (rule bspec)
  from this b have off: "\<not> coil0Active ?s4 \<and> \<not> coil1Active ?s4" by (rule mp)
  from r3 c4 a b gate off show ?thesis
    by (intro conjI) (erule conjunct1 conjunct2 | assumption)+
qed

subsection \<open>The pulse width\<close>

text \<open>
  C4, as the spec has it, does not hold: a coil can become inactive before its pulse
  width has passed. Coil0 is fired at 120 ms with a pulse width of 30 ms; in the next
  run of \<open>loop()\<close>, at 130 ms, sensor 1 reads LOW, coil1 is fired and coil0 is switched
  off (line 175, "Don't drive both coils simultaneously"), 10 ms after it was activated.
\<close>

theorem coil0_off_before_pulse_width:
  "observed coil0Active (loops [press_at 100] power_on) = Some True \<and>
   observed coil0TriggerTime (loops [press_at 100] power_on) = Some 120 \<and>
   observed pulseWidth (loops [press_at 100] power_on) = Some 30 \<and>
   observed coil0Active (loops [press_at 100, sled_at_1 130] power_on) = Some False \<and>
   \<not> millis_off0 (sled_at_1 130) - 120 > (30 :: ulong)"
  by (simp add: run_simps sled_at_1_def
      cong: option.case_cong_weak sum.case_cong_weak)

text \<open>
  C4, amended. After a run of \<open>loop()\<close> whose clock reading at the pulse test of a coil
  is more than \<open>pulseWidth\<close> past the trigger time of that coil, the coil is inactive:
  its flag is cleared and its line is LOW. Before that, a run of \<open>loop()\<close> makes an
  active coil inactive only if the fail-safe fires in it or, for coil0, if sensor 1 reads
  LOW at the coil1 test (coil1 is then fired and coil0 switched off).
\<close>

theorem pulse_width_auto_off:
  "reachable s \<and> loop inp s = Some (Inr s') \<longrightarrow>
     (millis_off0 inp - coil0TriggerTime s' > pulseWidth s' \<longrightarrow>
        \<not> coil0Active s' \<and> \<not> pin_level TRIGGER0 (trace s')) \<and>
     (millis_off1 inp - coil1TriggerTime s' > pulseWidth s' \<longrightarrow>
        \<not> coil1Active s' \<and> \<not> pin_level TRIGGER1 (trace s')) \<and>
     (coil0Active s \<and> \<not> coil0Active s' \<longrightarrow>
        millis_off0 inp - coil0TriggerTime s > pulseWidth s \<or> \<not> hall1_coil1 inp \<or>
        (launched s \<and> millis_failsafe inp - coil0TriggerTime s > FAIL_SAFE_LIMIT)) \<and>
     (coil1Active s \<and> \<not> coil1Active s' \<longrightarrow>
        millis_off1 inp - coil1TriggerTime s > pulseWidth s \<or>
        (launched s \<and> millis_failsafe inp - coil0TriggerTime s > FAIL_SAFE_LIMIT))"
proof (intro impI)
  assume a: "reachable s \<and> loop inp s = Some (Inr s')"
  then have r: "reachable s" and l: "loop inp s = Some (Inr s')" by simp_all
  have 1: "millis_off0 inp - coil0TriggerTime s' > pulseWidth s' \<longrightarrow>
        \<not> coil0Active s' \<and> \<not> pin_level TRIGGER0 (trace s')"
    using loop_expired_lines(1)[OF r l] by blast
  have 2: "millis_off1 inp - coil1TriggerTime s' > pulseWidth s' \<longrightarrow>
        \<not> coil1Active s' \<and> \<not> pin_level TRIGGER1 (trace s')"
    using loop_expired_lines(2)[OF r l] by blast
  have 3: "coil0Active s \<and> \<not> coil0Active s' \<longrightarrow>
        millis_off0 inp - coil0TriggerTime s > pulseWidth s \<or> \<not> hall1_coil1 inp \<or>
        (launched s \<and> millis_failsafe inp - coil0TriggerTime s > FAIL_SAFE_LIMIT)"
    using loop_keeps_coil0[OF l] by blast
  have 4: "coil1Active s \<and> \<not> coil1Active s' \<longrightarrow>
        millis_off1 inp - coil1TriggerTime s > pulseWidth s \<or>
        (launched s \<and> millis_failsafe inp - coil0TriggerTime s > FAIL_SAFE_LIMIT)"
    using loop_keeps_coil1[OF l] by blast
  from 1 2 3 4 show "(millis_off0 inp - coil0TriggerTime s' > pulseWidth s' \<longrightarrow>
        \<not> coil0Active s' \<and> \<not> pin_level TRIGGER0 (trace s')) \<and>
     (millis_off1 inp - coil1TriggerTime s' > pulseWidth s' \<longrightarrow>
        \<not> coil1Active s' \<and> \<not> pin_level TRIGGER1 (trace s')) \<and>
     (coil0Active s \<and> \<not> coil0Active s' \<longrightarrow>
        millis_off0 inp - coil0TriggerTime s > pulseWidth s \<or> \<not> hall1_coil1 inp \<or>
        (launched s \<and> millis_failsafe inp - coil0TriggerTime s > FAIL_SAFE_LIMIT)) \<and>
     (coil1Active s \<and> \<not> coil1Active s' \<longrightarrow>
        millis_off1 inp - coil1TriggerTime s > pulseWidth s \<or>
        (launched s \<and> millis_failsafe inp - coil0TriggerTime s > FAIL_SAFE_LIMIT))"
    by blast
qed

theorem pulse_width_auto_off_witness:
  "reachable (after [press_at 100, inputs_at 150] power_on) \<and>
   coil0Active (after [press_at 100, inputs_at 150] power_on) \<and>
   coil0TriggerTime (after [press_at 100, inputs_at 150] power_on) = 120 \<and>
   millis_off0 (inputs_at 151) -
     coil0TriggerTime (after ([press_at 100, inputs_at 150] @ [inputs_at 151]) power_on) >
     pulseWidth (after ([press_at 100, inputs_at 150] @ [inputs_at 151]) power_on) \<and>
   \<not> coil0Active (after ([press_at 100, inputs_at 150] @ [inputs_at 151]) power_on) \<and>
   \<not> pin_level TRIGGER0
       (trace (after ([press_at 100, inputs_at 150] @ [inputs_at 151]) power_on))"
proof -
  let ?s = "after [press_at 100, inputs_at 150] power_on"
  let ?s' = "after ([press_at 100, inputs_at 150] @ [inputs_at 151]) power_on"
  have r: "reachable ?s" by (intro reachable_after reachable_power_on)
  have a: "observed (\<lambda>s. (coil0Active s, coil0TriggerTime s))
      (loops [press_at 100, inputs_at 150] power_on) = Some (True, 120)"
    by (simp add: run_simps cong: option.case_cong_weak sum.case_cong_weak)
  have b: "observed (\<lambda>s. (coil0TriggerTime s, pulseWidth s))
      (loops ([press_at 100, inputs_at 150] @ [inputs_at 151]) power_on) = Some (120, 30)"
    by (simp add: run_simps cong: option.case_cong_weak sum.case_cong_weak)
  from observed_after[OF a] have c: "coil0Active ?s \<and> coil0TriggerTime ?s = 120" by simp
  from observed_after[OF b] have "coil0TriggerTime ?s' = 120 \<and> pulseWidth ?s' = 30" by simp
  then have t: "millis_off0 (inputs_at 151) - coil0TriggerTime ?s' > pulseWidth ?s'"
    by (simp add: inputs_at_def)
  from b have l: "loop (inputs_at 151) ?s = Some (Inr ?s')" by (rule loop_after)
  from r l have "reachable ?s \<and> loop (inputs_at 151) ?s = Some (Inr ?s')" by (intro conjI)
  with pulse_width_auto_off[of ?s "inputs_at 151" ?s']
  have "millis_off0 (inputs_at 151) - coil0TriggerTime ?s' > pulseWidth ?s' \<longrightarrow>
        \<not> coil0Active ?s' \<and> \<not> pin_level TRIGGER0 (trace ?s')"
    by (rule mp[THEN conjunct1])
  then have "\<not> coil0Active ?s' \<and> \<not> pin_level TRIGGER0 (trace ?s')" using t by (rule mp)
  with r c t show ?thesis by (intro conjI) (erule conjunct1 conjunct2 | assumption)+
qed

text \<open>
  C9. The speed report clears \<open>launched\<close> and leaves the coil flags and the coil lines
  as they are, so a coil can stay on with \<open>launched\<close> cleared, and the fail-safe, which
  tests \<open>launched\<close>, then does nothing. The pulse test does not look at \<open>launched\<close>: once
  its clock reading is more than \<open>pulseWidth\<close> past the trigger time of an active coil,
  it clears the flag and writes the line LOW, and so does a whole run of \<open>loop()\<close>
  started with \<open>launched\<close> cleared.
\<close>

theorem pulse_expiry_without_launched:
  "(hall1Tripped s \<and> hall2Tripped s \<and> reportSpeed s = Inr s' \<longrightarrow>
      \<not> launched s' \<and> coil0Active s' = coil0Active s \<and> coil1Active s' = coil1Active s \<and>
      pin_level TRIGGER0 (trace s') = pin_level TRIGGER0 (trace s) \<and>
      pin_level TRIGGER1 (trace s') = pin_level TRIGGER1 (trace s)) \<and>
   (\<not> launched s \<longrightarrow> failSafe inp s = s) \<and>
   (coil0Active s \<and> millis_off0 inp - coil0TriggerTime s > pulseWidth s \<longrightarrow>
      \<not> coil0Active (coil0Off inp s) \<and> \<not> pin_level TRIGGER0 (trace (coil0Off inp s))) \<and>
   (coil1Active s \<and> millis_off1 inp - coil1TriggerTime s > pulseWidth s \<longrightarrow>
      \<not> coil1Active (coil1Off inp s) \<and> \<not> pin_level TRIGGER1 (trace (coil1Off inp s))) \<and>
   (reachable s \<and> \<not> launched s \<and> loop inp s = Some (Inr t) \<longrightarrow>
      (millis_off0 inp - coil0TriggerTime t > pulseWidth t \<longrightarrow>
         \<not> coil0Active t \<and> \<not> pin_level TRIGGER0 (trace t)) \<and>
      (millis_off1 inp - coil1TriggerTime t > pulseWidth t \<longrightarrow>
         \<not> coil1Active t \<and> \<not> pin_level TRIGGER1 (trace t)))"
proof (intro conjI impI)
  assume a: "hall1Tripped s \<and> hall2Tripped s \<and> reportSpeed s = Inr s'"
  then have r: "reportSpeed s = Inr s'" by simp
  from r a show "\<not> launched s'" by (cases rule: reportSpeed_cases) simp_all
  from reportSpeed_frame[OF r] show "coil0Active s' = coil0Active s"
    "coil1Active s' = coil1Active s"
    "pin_level TRIGGER0 (trace s') = pin_level TRIGGER0 (trace s)"
    "pin_level TRIGGER1 (trace s') = pin_level TRIGGER1 (trace s)" by simp_all
next
  assume "\<not> launched s"
  then show "failSafe inp s = s" by (simp add: failSafe_def)
next
  assume a: "coil0Active s \<and> millis_off0 inp - coil0TriggerTime s > pulseWidth s"
  then show "\<not> coil0Active (coil0Off inp s)" by (simp add: coil0Off_def stmt_defs)
  from a show "\<not> pin_level TRIGGER0 (trace (coil0Off inp s))"
    by (simp add: coil0Off_def stmt_defs pin_level_append pin_defs)
next
  assume a: "coil1Active s \<and> millis_off1 inp - coil1TriggerTime s > pulseWidth s"
  then show "\<not> coil1Active (coil1Off inp s)" by (simp add: coil1Off_def stmt_defs)
  from a show "\<not> pin_level TRIGGER1 (trace (coil1Off inp s))"
    by (simp add: coil1Off_def stmt_defs pin_level_append pin_defs)
next
  assume a: "reachable s \<and> \<not> launched s \<and> loop inp s = Some (Inr t)"
    and e: "millis_off0 inp - coil0TriggerTime t > pulseWidth t"
  from a have r: "reachable s" and l: "loop inp s = Some (Inr t)" by simp_all
  from loop_expired_lines(1)[OF r l e]
  show "\<not> coil0Active t" "\<not> pin_level TRIGGER0 (trace t)" by simp_all
next
  assume a: "reachable s \<and> \<not> launched s \<and> loop inp s = Some (Inr t)"
    and e: "millis_off1 inp - coil1TriggerTime t > pulseWidth t"
  from a have r: "reachable s" and l: "loop inp s = Some (Inr t)" by simp_all
  from loop_expired_lines(2)[OF r l e]
  show "\<not> coil1Active t" "\<not> pin_level TRIGGER1 (trace t)" by simp_all
qed

theorem pulse_expiry_without_launched_witness:
  "reachable (after [press_at 100, sensors_at 121 122] power_on) \<and>
   \<not> launched (after [press_at 100, sensors_at 121 122] power_on) \<and>
   coil0Active (after [press_at 100, sensors_at 121 122] power_on) \<and>
   failSafe (inputs_at 5200) (after [press_at 100, sensors_at 121 122] power_on) =
     after [press_at 100, sensors_at 121 122] power_on \<and>
   \<not> coil0Active (after ([press_at 100, sensors_at 121 122] @ [inputs_at 151]) power_on) \<and>
   \<not> pin_level TRIGGER0
       (trace (after ([press_at 100, sensors_at 121 122] @ [inputs_at 151]) power_on))"
proof -
  let ?s = "after [press_at 100, sensors_at 121 122] power_on"
  let ?t = "after ([press_at 100, sensors_at 121 122] @ [inputs_at 151]) power_on"
  have r: "reachable ?s" by (intro reachable_after reachable_power_on)
  have a: "observed (\<lambda>s. (launched s, coil0Active s))
      (loops [press_at 100, sensors_at 121 122] power_on) = Some (False, True)"
    by (simp add: run_simps sensors_at_def cong: option.case_cong_weak sum.case_cong_weak)
  have b: "observed (\<lambda>s. (coil0TriggerTime s, pulseWidth s))
      (loops ([press_at 100, sensors_at 121 122] @ [inputs_at 151]) power_on) = Some (120, 30)"
    by (simp add: run_simps sensors_at_def cong: option.case_cong_weak sum.case_cong_weak)
  from observed_after[OF a] have c: "\<not> launched ?s \<and> coil0Active ?s" by simp
  from observed_after[OF b] have "coil0TriggerTime ?t = 120 \<and> pulseWidth ?t = 30" by simp
  then have e: "millis_off0 (inputs_at 151) - coil0TriggerTime ?t > pulseWidth ?t"
    by (simp add: inputs_at_def)
  from b have l: "loop (inputs_at 151) ?s = Some (Inr ?t)" by (rule loop_after)
  note T = pulse_expiry_without_launched[of ?s ?s "inputs_at 5200" ?t]
  note U = pulse_expiry_without_launched[of ?s ?s "inputs_at 151" ?t]
  from c have nl: "\<not> launched ?s" by (rule conjunct1)
  from c have c0: "coil0Active ?s" by (rule conjunct2)
  from T[THEN conjunct2, THEN conjunct1] nl
  have f: "failSafe (inputs_at 5200) ?s = ?s" by (rule mp)
  from r nl l have "reachable ?s \<and> \<not> launched ?s \<and> loop (inputs_at 151) ?s = Some (Inr ?t)"
    by (intro conjI)
  with U[THEN conjunct2, THEN conjunct2, THEN conjunct2, THEN conjunct2]
  have "millis_off0 (inputs_at 151) - coil0TriggerTime ?t > pulseWidth ?t \<longrightarrow>
         \<not> coil0Active ?t \<and> \<not> pin_level TRIGGER0 (trace ?t)"
    by (rule mp[THEN conjunct1])
  then have "\<not> coil0Active ?t \<and> \<not> pin_level TRIGGER0 (trace ?t)" using e by (rule mp)
  with r nl c0 f show ?thesis by (intro conjI) (erule conjunct1 conjunct2 | assumption)+
qed

end
